theory Spec2Isabelle
  imports Complex_Main
begin

section \<open>Python values\<close>

text \<open>
  The provider's answer is parsed JSON, so the values that reach the code are Python's
  \<^verbatim>\<open>None\<close>, booleans, integers, floats, strings, lists and dicts. A float is kept as a
  mantissa and a binary exponent (or an infinity or a NaN, which Python's parser accepts);
  the code only ever tests a float for truth. A dict is an association list read with
  \<open>map_of\<close>. Strings are lists of code points below 256.
\<close>

datatype pyfloat = Finite int int | Infinite bool | NaN

datatype json =
    JNull
  | JBool bool
  | JInt int
  | JFloat pyfloat
  | JStr string
  | JArr "json list"
  | JObj "(string \<times> json) list"

text \<open>Python's truth test (\<^verbatim>\<open>if x\<close>, \<^verbatim>\<open>not x\<close>).\<close>

fun truthy :: "json \<Rightarrow> bool" where
  "truthy JNull = False"
| "truthy (JBool b) = b"
| "truthy (JInt n) = (n \<noteq> 0)"
| "truthy (JFloat (Finite m e)) = (m \<noteq> 0)"
| "truthy (JFloat (Infinite s)) = True"
| "truthy (JFloat NaN) = True"
| "truthy (JStr s) = (s \<noteq> [])"
| "truthy (JArr xs) = (xs \<noteq> [])"
| "truthy (JObj kvs) = (kvs \<noteq> [])"

fun type_name :: "json \<Rightarrow> string" where
  "type_name JNull = ''NoneType''"
| "type_name (JBool b) = ''bool''"
| "type_name (JInt n) = ''int''"
| "type_name (JFloat f) = ''float''"
| "type_name (JStr s) = ''str''"
| "type_name (JArr xs) = ''list''"
| "type_name (JObj kvs) = ''dict''"

text \<open>
  Exceptions. Both handlers of the program catch \<^verbatim>\<open>Exception\<close> and use only
  \<^verbatim>\<open>str(e)\<close>, which \<open>str_exn\<close> gives.
\<close>

datatype exn =
    AttributeError string string
  | ZeroDivisionError
  | Exception string

fun str_exn :: "exn \<Rightarrow> string" where
  "str_exn (AttributeError ty attr) =
     [CHR 0x27] @ ty @ [CHR 0x27] @ '' object has no attribute '' @ [CHR 0x27] @ attr @ [CHR 0x27]"
| "str_exn ZeroDivisionError = ''integer division or modulo by zero''"
| "str_exn (Exception m) = m"

definition bind_exn :: "exn + 'a \<Rightarrow> ('a \<Rightarrow> exn + 'b) \<Rightarrow> exn + 'b" where
  "bind_exn m f = (case m of Inl e \<Rightarrow> Inl e | Inr x \<Rightarrow> f x)"

text \<open>\<^verbatim>\<open>x.get(key, default)\<close>: only a dict has the method.\<close>

definition py_get :: "json \<Rightarrow> string \<Rightarrow> json \<Rightarrow> exn + json" where
  "py_get x k d =
     (case x of
        JObj kvs \<Rightarrow> Inr (case map_of kvs k of None \<Rightarrow> d | Some v \<Rightarrow> v)
      | _ \<Rightarrow> Inl (AttributeError (type_name x) ''get''))"

section \<open>identify_segment\<close>

text \<open>
  What one call of \<^verbatim>\<open>identify_segment\<close> meets: opening the sample or posting it raises
  (the string is \<^verbatim>\<open>str(e)\<close>), or a response arrives with a status code and a body on
  which \<^verbatim>\<open>response.json()\<close> raises (\<open>Inl\<close>, with the message) or returns a value.
\<close>

datatype exchange =
    TransportFailure string
  | Response int "string + json"

text \<open>
  The dict that \<^verbatim>\<open>identify_segment\<close> returns: \<^verbatim>\<open>{"found": False}\<close> with or without an
  \<^verbatim>\<open>"error"\<close> key, or \<^verbatim>\<open>{"found": True, ...}\<close> with the six mapped fields.
\<close>

datatype segment_result =
    NotFound "json option"
  | Found json json json json json json

fun found :: "segment_result \<Rightarrow> bool" where
  "found (NotFound e) = False"
| "found (Found t a al sp ap dz) = True"

fun res_error :: "segment_result \<Rightarrow> json option" where
  "res_error (NotFound e) = e"
| "res_error (Found t a al sp ap dz) = None"

fun res_title :: "segment_result \<Rightarrow> json" where
  "res_title (NotFound e) = JStr []"
| "res_title (Found t a al sp ap dz) = t"

fun res_artist :: "segment_result \<Rightarrow> json" where
  "res_artist (NotFound e) = JStr []"
| "res_artist (Found t a al sp ap dz) = a"

fun res_album :: "segment_result \<Rightarrow> json" where
  "res_album (NotFound e) = JNull"
| "res_album (Found t a al sp ap dz) = al"

fun res_spotify_url :: "segment_result \<Rightarrow> json" where
  "res_spotify_url (NotFound e) = JNull"
| "res_spotify_url (Found t a al sp ap dz) = sp"

fun res_apple_music_url :: "segment_result \<Rightarrow> json" where
  "res_apple_music_url (NotFound e) = JNull"
| "res_apple_music_url (Found t a al sp ap dz) = ap"

fun res_deezer_url :: "segment_result \<Rightarrow> json" where
  "res_deezer_url (NotFound e) = JNull"
| "res_deezer_url (Found t a al sp ap dz) = dz"

text \<open>
  The three link expressions of the returned dict. Each is a conditional expression: the
  condition is evaluated first, then the chosen branch.
\<close>

definition spotify_link :: "json \<Rightarrow> exn + json" where
  "spotify_link track =
     bind_exn (py_get track ''spotify'' JNull) (\<lambda>c.
       if truthy c then
         bind_exn (py_get track ''spotify'' (JObj [])) (\<lambda>s.
         bind_exn (py_get s ''external_urls'' (JObj [])) (\<lambda>e.
         py_get e ''spotify'' JNull))
       else Inr JNull)"

definition apple_music_link :: "json \<Rightarrow> exn + json" where
  "apple_music_link track =
     bind_exn (py_get track ''apple_music'' JNull) (\<lambda>c.
       if truthy c then
         bind_exn (py_get track ''apple_music'' (JObj [])) (\<lambda>a.
         py_get a ''url'' JNull)
       else Inr JNull)"

text \<open>\<open>fmt\<close> is Python's formatting of a value inside an f-string.\<close>

definition deezer_link :: "(json \<Rightarrow> string) \<Rightarrow> json \<Rightarrow> exn + json" where
  "deezer_link fmt track =
     bind_exn (py_get track ''deezer'' (JObj [])) (\<lambda>d.
     bind_exn (py_get d ''id'' JNull) (\<lambda>c.
       if truthy c then
         bind_exn (py_get track ''deezer'' (JObj [])) (\<lambda>d'.
         bind_exn (py_get d' ''id'' JNull) (\<lambda>i.
         Inr (JStr (''https://www.deezer.com/track/'' @ fmt i))))
       else Inr JNull))"

text \<open>The body of the \<^verbatim>\<open>try\<close> once \<^verbatim>\<open>response.json()\<close> has returned \<open>result\<close>.\<close>

definition identify_body :: "(json \<Rightarrow> string) \<Rightarrow> json \<Rightarrow> exn + segment_result" where
  "identify_body fmt result =
     bind_exn (py_get result ''status'' JNull) (\<lambda>logged.
     bind_exn (py_get result ''status'' JNull) (\<lambda>status.
       if status = JStr ''error'' then
         bind_exn (py_get result ''error'' JNull) (\<lambda>logged_error.
         bind_exn (py_get result ''error'' JNull) (\<lambda>err.
         Inr (NotFound (Some err))))
       else
         bind_exn (py_get result ''status'' JNull) (\<lambda>status'.
         if status' = JStr ''success'' then
           bind_exn (py_get result ''result'' JNull) (\<lambda>track.
           if truthy track then
             bind_exn (py_get track ''title'' JNull) (\<lambda>t.
             bind_exn (py_get track ''artist'' JNull) (\<lambda>a.
             bind_exn (py_get track ''album'' JNull) (\<lambda>al.
             bind_exn (spotify_link track) (\<lambda>sp.
             bind_exn (apple_music_link track) (\<lambda>ap.
             bind_exn (deezer_link fmt track) (\<lambda>dz.
             Inr (Found t a al sp ap dz)))))))
           else Inr (NotFound None))
         else Inr (NotFound None))))"

definition identify_segment :: "(json \<Rightarrow> string) \<Rightarrow> exchange \<Rightarrow> segment_result" where
  "identify_segment fmt x =
     (case x of
        TransportFailure m \<Rightarrow> NotFound (Some (JStr m))
      | Response code (Inl m) \<Rightarrow> NotFound (Some (JStr m))
      | Response code (Inr result) \<Rightarrow>
          (case identify_body fmt result of
             Inl e \<Rightarrow> NotFound (Some (JStr (str_exn e)))
           | Inr r \<Rightarrow> r))"

section \<open>String operations of the standard library\<close>

text \<open>
  Character classes as Python has them on the code points below 256: \<open>is_space\<close> is
  \<^verbatim>\<open>str.isspace\<close> (which \<^verbatim>\<open>strip\<close>, \<^verbatim>\<open>split\<close> and the pattern \<^verbatim>\<open>\s\<close> share),
  \<open>is_word\<close> is the pattern \<^verbatim>\<open>\w\<close>, \<open>lower_char\<close> is \<^verbatim>\<open>str.lower\<close> on one character.
\<close>

definition is_space :: "char \<Rightarrow> bool" where
  "is_space c =
     (let n = (of_char c :: nat)
      in (9 \<le> n \<and> n \<le> 13) \<or> (28 \<le> n \<and> n \<le> 32) \<or> n = 133 \<or> n = 160)"

definition is_word :: "char \<Rightarrow> bool" where
  "is_word c =
     (let n = (of_char c :: nat)
      in (48 \<le> n \<and> n \<le> 57) \<or> (65 \<le> n \<and> n \<le> 90) \<or> n = 95 \<or> (97 \<le> n \<and> n \<le> 122)
         \<or> n = 170 \<or> n = 178 \<or> n = 179 \<or> n = 181 \<or> n = 185 \<or> n = 186
         \<or> (188 \<le> n \<and> n \<le> 190) \<or> (192 \<le> n \<and> n \<le> 214) \<or> (216 \<le> n \<and> n \<le> 246)
         \<or> (248 \<le> n \<and> n \<le> 255))"

definition lower_char :: "char \<Rightarrow> char" where
  "lower_char c =
     (let n = (of_char c :: nat)
      in if (65 \<le> n \<and> n \<le> 90) \<or> (192 \<le> n \<and> n \<le> 222 \<and> n \<noteq> 215)
         then char_of (n + 32) else c)"

definition py_lower :: "string \<Rightarrow> string" where
  "py_lower s = map lower_char s"

definition py_strip :: "string \<Rightarrow> string" where
  "py_strip s = rev (dropWhile is_space (rev (dropWhile is_space s)))"

text \<open>
  \<^verbatim>\<open>s.split()\<close>: the maximal runs of non-space characters, in order. \<open>cur\<close> is the run
  being read.
\<close>

fun split_ws :: "string \<Rightarrow> string \<Rightarrow> string list" where
  "split_ws cur [] = (if cur = [] then [] else [cur])"
| "split_ws cur (c # cs) =
     (if is_space c then (if cur = [] then split_ws [] cs else cur # split_ws [] cs)
      else split_ws (cur @ [c]) cs)"

definition py_split :: "string \<Rightarrow> string list" where
  "py_split s = split_ws [] s"

fun py_join :: "string \<Rightarrow> string list \<Rightarrow> string" where
  "py_join sep [] = []"
| "py_join sep [x] = x"
| "py_join sep (x # y # ys) = x @ sep @ py_join sep (y # ys)"

text \<open>
  \<^verbatim>\<open>s.split(sep)\<close> for a non-empty separator: occurrences are taken from the left and do
  not overlap. \<^verbatim>\<open>sep in s\<close> is \<open>contains\<close>.
\<close>

fun split_on :: "string \<Rightarrow> string \<Rightarrow> string \<Rightarrow> string list" where
  "split_on sep cur [] = [cur]"
| "split_on sep cur (c # cs) =
     (if take (length sep) (c # cs) = sep
      then cur # split_on sep [] (drop (length sep - 1) cs)
      else split_on sep (cur @ [c]) cs)"

fun contains :: "string \<Rightarrow> string \<Rightarrow> bool" where
  "contains sep [] = (sep = [])"
| "contains sep (c # cs) = (take (length sep) (c # cs) = sep \<or> contains sep cs)"

text \<open>
  \<^verbatim>\<open>re.sub(r"\([^)]*\)", "", s)\<close> and its bracket twin: at an opening character the
  match runs to the first closing character after it, and is removed; with no closing
  character ahead there is no match and the opening character stays.
\<close>

function strip_delimited :: "char \<Rightarrow> char \<Rightarrow> string \<Rightarrow> string" where
  "strip_delimited opn cls [] = []"
| "strip_delimited opn cls (c # cs) =
     (if c = opn \<and> cls \<in> set cs
      then strip_delimited opn cls (tl (dropWhile (\<lambda>x. x \<noteq> cls) cs))
      else c # strip_delimited opn cls cs)"
  by pat_completeness auto
termination
proof (relation "measure (\<lambda>(opn, cls, s). length s)", goal_cases)
  case 1
  show ?case by simp
next
  case (2 opn cls c cs)
  have "length (tl (dropWhile (\<lambda>x. x \<noteq> cls) cs)) \<le> length cs"
    using length_dropWhile_le [of "\<lambda>x. x \<noteq> cls" cs] by simp
  then show ?case by simp
next
  case (3 opn cls c cs)
  show ?case by simp
qed

text \<open>
  \<^verbatim>\<open>re.sub(rf"\b{word}\b", "", s)\<close> for a word of word characters: the word matches
  where it stands in the subject with no word character right before it and none right
  after it. \<open>prev\<close> tells whether the character before the current position, in the
  subject, is a word character. After a match the scan goes on behind it.
\<close>

fun remove_word :: "string \<Rightarrow> bool \<Rightarrow> string \<Rightarrow> string" where
  "remove_word w prev [] = []"
| "remove_word w prev (c # cs) =
     (if \<not> prev \<and> take (length w) (c # cs) = w
         \<and> (case drop (length w) (c # cs) of [] \<Rightarrow> True | d # ds \<Rightarrow> \<not> is_word d)
      then remove_word w True (drop (length w - 1) cs)
      else c # remove_word w (is_word c) cs)"

section \<open>normalize_track_name\<close>

definition remove_words :: "string list" where
  "remove_words =
     [''remix'', ''edit'', ''bootleg'', ''mix'', ''version'', ''extended'', ''original'',
      ''radio'', ''club'', ''dub'', ''instrumental'', ''vip'', ''flip'', ''rework'',
      ''remaster'', ''remastered'', ''feat'', ''ft'', ''featuring'', ''prod'', ''produced'']"

text \<open>
  The loop over \<^verbatim>\<open>remove_words\<close> rewrites the title and the artist side by side; neither
  reads the other, so the loop is one fold for each.
\<close>

definition remove_noise :: "string \<Rightarrow> string" where
  "remove_noise s = foldl (\<lambda>t w. remove_word w False t) s remove_words"

definition strip_special :: "string \<Rightarrow> string" where
  "strip_special s = filter (\<lambda>c. is_word c \<or> is_space c) s"

definition collapse_ws :: "string \<Rightarrow> string" where
  "collapse_ws s = py_join '' '' (py_split s)"

definition normalize_artist :: "string \<Rightarrow> string" where
  "normalize_artist artist =
     collapse_ws (strip_special (remove_noise (py_strip (py_lower artist))))"

definition normalize_title :: "string \<Rightarrow> string" where
  "normalize_title title =
     collapse_ws (strip_special (remove_noise
       (strip_delimited (CHR ''['') (CHR '']'')
         (strip_delimited (CHR ''('') (CHR '')'') (py_strip (py_lower title))))))"

text \<open>
  The arguments are whatever the provider sent. A falsy one gives the empty key; on a
  truthy one that is not a string \<^verbatim>\<open>.lower()\<close> raises, the artist's first.
\<close>

definition normalize_track_name :: "json \<Rightarrow> json \<Rightarrow> exn + string" where
  "normalize_track_name artist title =
     (if \<not> truthy artist \<or> \<not> truthy title then Inr []
      else case artist of
        JStr a \<Rightarrow>
          (case title of
             JStr t \<Rightarrow> Inr (normalize_artist a @ '' - '' @ normalize_title t)
           | _ \<Rightarrow> Inl (AttributeError (type_name title) ''lower''))
      | _ \<Rightarrow> Inl (AttributeError (type_name artist) ''lower''))"

section \<open>SequenceMatcher\<close>

text \<open>
  \<^verbatim>\<open>SequenceMatcher(None, a, b).ratio()\<close> of the standard library, with no junk
  predicate and the automatic junk heuristic left on, as the program calls it.

  \<open>b2j b x\<close> lists the positions of \<open>x\<close> in \<open>b\<close>, in increasing order; when \<open>b\<close>
  has at least 200 elements, an element that fills more than one percent of it plus one
  is dropped from the table.
\<close>

definition b2j :: "string \<Rightarrow> char \<Rightarrow> nat list" where
  "b2j b x =
     (let idxs = filter (\<lambda>j. b ! j = x) [0..<length b]
      in if 200 \<le> length b \<and> length b div 100 + 1 < length idxs then [] else idxs)"

text \<open>\<^verbatim>\<open>j2len.get(j-1, 0)\<close>; for \<open>j = 0\<close> the key \<open>-1\<close> is never in the table.\<close>

definition j2len_get :: "(nat \<times> nat) list \<Rightarrow> nat \<Rightarrow> nat" where
  "j2len_get j2len j =
     (if j = 0 then 0 else case map_of j2len (j - 1) of None \<Rightarrow> 0 | Some k \<Rightarrow> k)"

text \<open>
  The inner loop of \<^verbatim>\<open>find_longest_match\<close> for one \<open>i\<close>, over the positions \<open>j\<close> of
  \<open>a[i]\<close> in \<open>b\<close>: it fills \<open>newj2len\<close> and keeps the best block
  \<open>(besti, bestj, bestsize)\<close>.
\<close>

fun match_row ::
  "(nat \<times> nat) list \<Rightarrow> nat \<Rightarrow> nat \<Rightarrow> nat \<Rightarrow> nat list \<Rightarrow> (nat \<times> nat) list \<Rightarrow> nat \<times> nat \<times> nat
     \<Rightarrow> (nat \<times> nat) list \<times> (nat \<times> nat \<times> nat)" where
  "match_row j2len i blo bhi [] newj2len best = (newj2len, best)"
| "match_row j2len i blo bhi (j # js) newj2len (besti, bestj, bestsize) =
     (if j < blo then match_row j2len i blo bhi js newj2len (besti, bestj, bestsize)
      else if bhi \<le> j then (newj2len, (besti, bestj, bestsize))
      else
        let k = j2len_get j2len j + 1
        in match_row j2len i blo bhi js ((j, k) # newj2len)
             (if bestsize < k then (i + 1 - k, j + 1 - k, k) else (besti, bestj, bestsize)))"

text \<open>The outer loop, over the \<open>i\<close> of \<^verbatim>\<open>range(alo, ahi)\<close>.\<close>

fun match_rows ::
  "string \<Rightarrow> string \<Rightarrow> nat \<Rightarrow> nat \<Rightarrow> nat list \<Rightarrow> (nat \<times> nat) list \<Rightarrow> nat \<times> nat \<times> nat
     \<Rightarrow> nat \<times> nat \<times> nat" where
  "match_rows a b blo bhi [] j2len best = best"
| "match_rows a b blo bhi (i # is) j2len best =
     (case match_row j2len i blo bhi (b2j b (a ! i)) [] best of
        (newj2len, best') \<Rightarrow> match_rows a b blo bhi is newj2len best')"

text \<open>
  The two loops that extend the best block by equal elements on each end. (The two
  loops after them extend by junk only, and there is no junk.)
\<close>

function extend_left :: "string \<Rightarrow> string \<Rightarrow> nat \<Rightarrow> nat \<Rightarrow> nat \<times> nat \<times> nat \<Rightarrow> nat \<times> nat \<times> nat" where
  "extend_left a b alo blo (besti, bestj, bestsize) =
     (if alo < besti \<and> blo < bestj \<and> a ! (besti - 1) = b ! (bestj - 1)
      then extend_left a b alo blo (besti - 1, bestj - 1, bestsize + 1)
      else (besti, bestj, bestsize))"
  by pat_completeness auto
termination
  by (relation "measure (\<lambda>(a, b, alo, blo, besti, bestj, bestsize). besti)") auto

function extend_right :: "string \<Rightarrow> string \<Rightarrow> nat \<Rightarrow> nat \<Rightarrow> nat \<times> nat \<times> nat \<Rightarrow> nat \<times> nat \<times> nat" where
  "extend_right a b ahi bhi (besti, bestj, bestsize) =
     (if besti + bestsize < ahi \<and> bestj + bestsize < bhi
         \<and> a ! (besti + bestsize) = b ! (bestj + bestsize)
      then extend_right a b ahi bhi (besti, bestj, bestsize + 1)
      else (besti, bestj, bestsize))"
  by pat_completeness auto
termination
  by (relation "measure (\<lambda>(a, b, ahi, bhi, besti, bestj, bestsize). ahi - (besti + bestsize))") auto

definition find_longest_match ::
  "string \<Rightarrow> string \<Rightarrow> nat \<Rightarrow> nat \<Rightarrow> nat \<Rightarrow> nat \<Rightarrow> nat \<times> nat \<times> nat" where
  "find_longest_match a b alo ahi blo bhi =
     extend_right a b ahi bhi
       (extend_left a b alo blo
         (match_rows a b blo bhi [alo..<ahi] [] (alo, blo, 0)))"

text \<open>
  Bounds on the block that \<open>find_longest_match\<close> returns: it starts at or after \<open>alo\<close>
  and ends at or before \<open>ahi\<close>. The recursion over the matching blocks terminates by
  them.
\<close>

lemma match_row_bound:
  assumes "\<forall>(j, k) \<in> set j2len. k + alo \<le> i" and "alo \<le> i"
    and "\<forall>(j, k) \<in> set newj2len. k + alo \<le> i + 1"
    and "alo \<le> fst best" and "fst best + snd (snd best) \<le> i + 1"
    and "match_row j2len i blo bhi js newj2len best = (new', best')"
  shows "(\<forall>(j, k) \<in> set new'. k + alo \<le> i + 1) \<and> alo \<le> fst best' \<and> fst best' + snd (snd best') \<le> i + 1"
  using assms
proof (induction j2len i blo bhi js newj2len best rule: match_row.induct)
  case (1 j2len i blo bhi newj2len best)
  then show ?case by auto
next
  case (2 j2len i blo bhi j js newj2len besti bestj bestsize)
  have g: "j2len_get j2len j + alo \<le> i"
    using "2.prems"(1,2)
    by (auto simp: j2len_get_def split: option.splits dest!: map_of_SomeD)
  show ?case
  proof (cases "j < blo")
    case True
    with 2 show ?thesis by simp
  next
    case nlo: False
    show ?thesis
    proof (cases "bhi \<le> j")
      case True
      with nlo "2.prems" show ?thesis by auto
    next
      case False
      show ?thesis
        apply (rule "2.IH"(2) [OF nlo False refl "2.prems"(1,2)])
        using "2.prems" nlo False g by (auto simp: Let_def)
    qed
  qed
qed

lemma match_rows_bound:
  assumes "\<forall>(j, k) \<in> set j2len. k + alo \<le> i0" and "alo \<le> i0"
    and "alo \<le> fst best" and "fst best + snd (snd best) \<le> i0"
  shows "alo \<le> fst (match_rows a b blo bhi [i0..<ahi] j2len best)
       \<and> fst (match_rows a b blo bhi [i0..<ahi] j2len best)
           + snd (snd (match_rows a b blo bhi [i0..<ahi] j2len best)) \<le> max i0 ahi"
  using assms
proof (induction "ahi - i0" arbitrary: i0 j2len best)
  case 0
  then show ?case by simp
next
  case (Suc n)
  then have lt: "i0 < ahi" by simp
  obtain new' best' where r: "match_row j2len i0 blo bhi (b2j b (a ! i0)) [] best = (new', best')"
    by (cases "match_row j2len i0 blo bhi (b2j b (a ! i0)) [] best") auto
  have inv: "(\<forall>(j, k) \<in> set new'. k + alo \<le> i0 + 1) \<and> alo \<le> fst best' \<and> fst best' + snd (snd best') \<le> i0 + 1"
    by (rule match_row_bound [OF Suc.prems(1,2) _ Suc.prems(3) _ r]) (use Suc.prems in auto)
  have "n = ahi - Suc i0" using Suc.hyps(2) by simp
  from Suc.hyps(1) [OF this, of new' best'] inv Suc.prems(2)
  have "alo \<le> fst (match_rows a b blo bhi [Suc i0..<ahi] new' best')
       \<and> fst (match_rows a b blo bhi [Suc i0..<ahi] new' best')
           + snd (snd (match_rows a b blo bhi [Suc i0..<ahi] new' best')) \<le> max (Suc i0) ahi"
    by simp
  then show ?case using lt r by (simp add: upt_conv_Cons)
qed

declare extend_left.simps [simp del] extend_right.simps [simp del]

lemma extend_left_bound:
  "alo \<le> fst m \<Longrightarrow> alo \<le> fst (extend_left a b alo blo m)
     \<and> fst (extend_left a b alo blo m) + snd (snd (extend_left a b alo blo m)) = fst m + snd (snd m)"
proof (induction a b alo blo m rule: extend_left.induct)
  case (1 a b alo blo besti bestj bestsize)
  show ?case
  proof (cases "alo < besti \<and> blo < bestj \<and> a ! (besti - 1) = b ! (bestj - 1)")
    case True
    then have e: "extend_left a b alo blo (besti, bestj, bestsize)
        = extend_left a b alo blo (besti - 1, bestj - 1, bestsize + 1)"
      by (subst extend_left.simps) simp
    from True have "alo \<le> fst (besti - 1, bestj - 1, bestsize + 1)" by auto
    from "1.IH" [OF True this] True show ?thesis unfolding e by simp
  next
    case False
    then have "extend_left a b alo blo (besti, bestj, bestsize) = (besti, bestj, bestsize)"
      by (subst extend_left.simps) auto
    with "1.prems" show ?thesis by simp
  qed
qed

lemma extend_right_bound:
  "fst (extend_right a b ahi bhi m) = fst m
     \<and> fst (extend_right a b ahi bhi m) + snd (snd (extend_right a b ahi bhi m)) \<le> max (fst m + snd (snd m)) ahi"
proof (induction a b ahi bhi m rule: extend_right.induct)
  case (1 a b ahi bhi besti bestj bestsize)
  show ?case
  proof (cases "besti + bestsize < ahi \<and> bestj + bestsize < bhi
         \<and> a ! (besti + bestsize) = b ! (bestj + bestsize)")
    case True
    then have e: "extend_right a b ahi bhi (besti, bestj, bestsize)
        = extend_right a b ahi bhi (besti, bestj, bestsize + 1)"
      by (subst extend_right.simps) simp
    from "1.IH" [OF True] True show ?thesis unfolding e by simp
  next
    case False
    then have "extend_right a b ahi bhi (besti, bestj, bestsize) = (besti, bestj, bestsize)"
      by (subst extend_right.simps) auto
    then show ?thesis by simp
  qed
qed

lemma find_longest_match_bound:
  assumes "find_longest_match a b alo ahi blo bhi = (i, j, k)"
  shows "alo \<le> i \<and> i + k \<le> max alo ahi"
proof -
  let ?m = "match_rows a b blo bhi [alo..<ahi] [] (alo, blo, 0)"
  have m: "alo \<le> fst ?m \<and> fst ?m + snd (snd ?m) \<le> max alo ahi"
    by (rule match_rows_bound) auto
  let ?l = "extend_left a b alo blo ?m"
  have l: "alo \<le> fst ?l \<and> fst ?l + snd (snd ?l) = fst ?m + snd (snd ?m)"
    using extend_left_bound m by blast
  have r: "fst (extend_right a b ahi bhi ?l) = fst ?l
      \<and> fst (extend_right a b ahi bhi ?l) + snd (snd (extend_right a b ahi bhi ?l)) \<le> max (fst ?l + snd (snd ?l)) ahi"
    by (rule extend_right_bound)
  from assms have "extend_right a b ahi bhi ?l = (i, j, k)" by (simp add: find_longest_match_def)
  with m l r show ?thesis by auto
qed

text \<open>
  \<^verbatim>\<open>get_matching_blocks\<close> takes the longest block of a window, then works on the windows
  to its left and to its right. \<^verbatim>\<open>ratio\<close> reads only the sum of the block sizes, which
  is \<open>matching_size\<close>; the order of the work queue, the sort and the merging of adjacent
  blocks leave that sum alone.
\<close>

function matching_size :: "string \<Rightarrow> string \<Rightarrow> nat \<Rightarrow> nat \<Rightarrow> nat \<Rightarrow> nat \<Rightarrow> nat" where
  "matching_size a b alo ahi blo bhi =
     (case find_longest_match a b alo ahi blo bhi of
        (i, j, k) \<Rightarrow>
          if k = 0 then 0
          else k
             + (if alo < i \<and> blo < j then matching_size a b alo i blo j else 0)
             + (if i + k < ahi \<and> j + k < bhi then matching_size a b (i + k) ahi (j + k) bhi else 0))"
  by pat_completeness auto
termination
proof (relation "measure (\<lambda>(a, b, alo, ahi, blo, bhi). ahi - alo)", goal_cases)
  case 1
  show ?case by simp
next
  case (2 a b alo ahi blo bhi i r j k)
  then have "find_longest_match a b alo ahi blo bhi = (i, j, k)" by simp
  from find_longest_match_bound [OF this] 2 show ?case by auto
next
  case (3 a b alo ahi blo bhi i r j k)
  then have "find_longest_match a b alo ahi blo bhi = (i, j, k)" by simp
  from find_longest_match_bound [OF this] 3 show ?case by auto
qed

declare matching_size.simps [simp del]

text \<open>
  \<^verbatim>\<open>2.0 * matches / length\<close>, or \<open>1.0\<close> for two empty sequences. The program compares
  the float with the literals \<^verbatim>\<open>0.8\<close> and \<^verbatim>\<open>0.85\<close>; the model compares the exact
  quotient with \<open>4/5\<close> and \<open>17/20\<close>. Float division rounds to nearest and the literals are
  the floats nearest to the two fractions, so both comparisons agree whenever the two
  lengths add up to less than \<open>2^50\<close>.
\<close>

definition ratio :: "string \<Rightarrow> string \<Rightarrow> rat" where
  "ratio a b =
     (let matches = matching_size a b 0 (length a) 0 (length b);
          len = length a + length b
      in if len \<noteq> 0 then 2 * of_nat matches / of_nat len else 1)"

section \<open>tracks_are_similar\<close>

definition title_part :: "string \<Rightarrow> string" where
  "title_part key = (if contains '' - '' key then last (split_on '' - '' [] key) else key)"

definition tracks_are_similar :: "json \<Rightarrow> json \<Rightarrow> json \<Rightarrow> json \<Rightarrow> exn + bool" where
  "tracks_are_similar track1_artist track1_title track2_artist track2_title =
     bind_exn (normalize_track_name track1_artist track1_title) (\<lambda>norm1.
     bind_exn (normalize_track_name track2_artist track2_title) (\<lambda>norm2.
       if norm1 = [] \<or> norm2 = [] then Inr False
       else if norm1 = norm2 then Inr True
       else if ratio norm1 norm2 > 4 / 5 then Inr True
       else if ratio (title_part norm1) (title_part norm2) > 17 / 20 then Inr True
       else Inr False))"

section \<open>format_timestamp\<close>

function digits :: "nat \<Rightarrow> string" where
  "digits n = (if n < 10 then [char_of (48 + n)] else digits (n div 10) @ [char_of (48 + n mod 10)])"
  by pat_completeness auto
termination
  by (relation "measure (\<lambda>n. n)") auto

declare digits.simps [simp del]

text \<open>\<^verbatim>\<open>f"{n}"\<close> and \<^verbatim>\<open>f"{n:02d}"\<close> for an integer; the width counts the sign.\<close>

definition str_int :: "int \<Rightarrow> string" where
  "str_int n = (if n < 0 then CHR ''-'' # digits (nat (- n)) else digits (nat n))"

definition fmt_02d :: "int \<Rightarrow> string" where
  "fmt_02d n =
     (if n < 0 then CHR ''-'' # digits (nat (- n))
      else if n < 10 then CHR ''0'' # digits (nat n)
      else digits (nat n))"

definition format_timestamp :: "int \<Rightarrow> string" where
  "format_timestamp seconds =
     (let hours = seconds div 3600;
          minutes = (seconds mod 3600) div 60;
          secs = seconds mod 60
      in if hours > 0 then fmt_02d hours @ '':'' @ fmt_02d minutes @ '':'' @ fmt_02d secs
         else fmt_02d minutes @ '':'' @ fmt_02d secs)"

section \<open>process_set\<close>

text \<open>
  A track is the dict the scan appends. The two kinds of dict do not have the same keys:
  a \<^verbatim>\<open>not_found\<close> one has no album and no link keys, which is \<open>None\<close> here, while a key
  holding \<^verbatim>\<open>None\<close> is \<open>Some JNull\<close>.
\<close>

record track =
  timestamp :: string
  timestamp_seconds :: int
  title :: json
  artist :: json
  album :: "json option"
  spotify_url :: "json option"
  apple_music_url :: "json option"
  deezer_url :: "json option"
  status :: string

text \<open>The three variables the loop carries.\<close>

record scan_state =
  tracks :: "track list"
  last_track :: "track option"
  consecutive_not_found :: int

definition identified_track :: "int \<Rightarrow> segment_result \<Rightarrow> track" where
  "identified_track start_time result =
     \<lparr> timestamp = format_timestamp start_time,
       timestamp_seconds = start_time,
       title = res_title result,
       artist = res_artist result,
       album = Some (res_album result),
       spotify_url = Some (res_spotify_url result),
       apple_music_url = Some (res_apple_music_url result),
       deezer_url = Some (res_deezer_url result),
       status = ''identified'' \<rparr>"

definition not_found_track :: "int \<Rightarrow> int \<Rightarrow> track" where
  "not_found_track segment_duration start_time =
     \<lparr> timestamp = format_timestamp (max 0 (start_time - segment_duration)),
       timestamp_seconds = max 0 (start_time - segment_duration),
       title = JNull,
       artist = JNull,
       album = None,
       spotify_url = None,
       apple_music_url = None,
       deezer_url = None,
       status = ''not_found'' \<rparr>"

text \<open>
  What one iteration does with the result of \<^verbatim>\<open>identify_segment\<close> (the
  \<^verbatim>\<open>if result.get("found")\<close> statement). The comparison with the last track can raise.
\<close>

definition scan_step :: "int \<Rightarrow> int \<Rightarrow> segment_result \<Rightarrow> scan_state \<Rightarrow> exn + scan_state" where
  "scan_step segment_duration start_time result st =
     (if found result then
        let current_artist = res_artist result;
            current_title = res_title result
        in bind_exn
             (case last_track st of
                None \<Rightarrow> Inr False
              | Some lt \<Rightarrow>
                  if status lt = ''identified''
                  then tracks_are_similar (artist lt) (title lt) current_artist current_title
                  else Inr False)
             (\<lambda>is_similar.
                if \<not> is_similar then
                  let new_track = identified_track start_time result
                  in Inr (st\<lparr>tracks := tracks st @ [new_track],
                             last_track := Some new_track,
                             consecutive_not_found := 0\<rparr>)
                else Inr st)
      else
        let c = consecutive_not_found st + 1
        in if c \<ge> 2 \<and> (case last_track st of None \<Rightarrow> True | Some lt \<Rightarrow> status lt \<noteq> ''not_found'')
           then
             let new_track = not_found_track segment_duration start_time
             in Inr (st\<lparr>tracks := tracks st @ [new_track],
                        last_track := Some new_track,
                        consecutive_not_found := c\<rparr>)
           else Inr (st\<lparr>consecutive_not_found := c\<rparr>))"

text \<open>The job record that the pollers read.\<close>

record job =
  job_status :: string
  job_message :: string
  job_url :: string
  job_tracks :: "track list"
  job_set_info :: json
  job_total_duration :: int
  job_current_position :: int

text \<open>
  What a run of \<^verbatim>\<open>process_set\<close> meets outside the program: the outcome of
  \<^verbatim>\<open>download_audio\<close>, the path of the audio file and whether it exists, the outcome of
  \<^verbatim>\<open>AudioSegment.from_mp3\<close> (the length of the audio in milliseconds), the exchange with
  the provider for the sample of each iteration, and the formatter of f-strings. Cutting
  a sample, writing it and removing it are taken to succeed.
\<close>

record environment =
  download_audio :: "exn + json"
  audio_file :: string
  audio_exists :: bool
  from_mp3 :: "exn + nat"
  exchanges :: "nat \<Rightarrow> exchange"
  format_value :: "json \<Rightarrow> string"

text \<open>\<^verbatim>\<open>range(0, stop, step)\<close> for a step other than zero.\<close>

definition py_range :: "int \<Rightarrow> int \<Rightarrow> int list" where
  "py_range stop step =
     (if step > 0 then map (\<lambda>k. int k * step) [0..<nat ((stop + step - 1) div step)]
      else if step < 0 then map (\<lambda>k. int k * step) [0..<nat ((stop + step + 1) div step)]
      else [])"

definition initial_scan_state :: scan_state where
  "initial_scan_state = \<lparr> tracks = [], last_track = None, consecutive_not_found = 0 \<rparr>"

text \<open>
  One iteration of the loop. When the comparison raises, the job record is left as the
  iteration made it up to there; its track list is the list of the scan, which no
  iteration changes before the comparison.
\<close>

definition scan_iteration ::
  "environment \<Rightarrow> int \<Rightarrow> int \<Rightarrow> nat \<times> int \<Rightarrow> job \<times> scan_state \<Rightarrow> (exn \<times> job) + (job \<times> scan_state)" where
  "scan_iteration env segment_duration duration_seconds p js =
     (case p of (i, start_time) \<Rightarrow>
      case js of (j, st) \<Rightarrow>
        let j1 = j\<lparr>job_current_position := start_time,
                    job_message := ''Identificando tracks ('' @ str_int (int i + 1) @ ''/''
                      @ str_int (duration_seconds div segment_duration + 1) @ '')...''\<rparr>;
            result = identify_segment (format_value env) (exchanges env i)
        in case scan_step segment_duration start_time result st of
             Inl e \<Rightarrow> Inl (e, j1)
           | Inr st' \<Rightarrow> Inr (j1\<lparr>job_tracks := tracks st'\<rparr>, st'))"

fun scan_loop ::
  "environment \<Rightarrow> int \<Rightarrow> int \<Rightarrow> (nat \<times> int) list \<Rightarrow> job \<times> scan_state \<Rightarrow> (exn \<times> job) + (job \<times> scan_state)" where
  "scan_loop env segment_duration duration_seconds [] js = Inr js"
| "scan_loop env segment_duration duration_seconds (p # ps) js =
     (case scan_iteration env segment_duration duration_seconds p js of
        Inl e \<Rightarrow> Inl e
      | Inr js' \<Rightarrow> scan_loop env segment_duration duration_seconds ps js')"

definition fail_job :: "job \<Rightarrow> exn \<Rightarrow> job" where
  "fail_job j e = j\<lparr>job_status := ''error'', job_message := ''Error: '' @ str_exn e\<rparr>"

definition process_set :: "environment \<Rightarrow> job \<Rightarrow> int \<Rightarrow> job" where
  "process_set env j segment_duration =
     (let j1 = j\<lparr>job_status := ''downloading'', job_message := ''Descargando audio...''\<rparr>
      in case download_audio env of
           Inl e \<Rightarrow> fail_job j1 e
         | Inr info \<Rightarrow>
             if \<not> audio_exists env
             then fail_job j1 (Exception (''Audio file not found: '' @ audio_file env))
             else
               let j2 = j1\<lparr>job_set_info := info, job_status := ''processing'',
                            job_message := ''Procesando audio...''\<rparr>
               in case from_mp3 env of
                    Inl e \<Rightarrow> fail_job j2 e
                  | Inr len_audio \<Rightarrow>
                      let duration_seconds = int len_audio div 1000;
                          j3 = j2\<lparr>job_total_duration := duration_seconds\<rparr>
                      in if segment_duration = 0 then fail_job j3 ZeroDivisionError
                         else
                           let j4 = j3\<lparr>job_message := ''Identificando tracks (0/''
                                        @ str_int (duration_seconds div segment_duration) @ '')...''\<rparr>
                           in case scan_loop env segment_duration duration_seconds
                                     (enumerate 0 (py_range duration_seconds segment_duration))
                                     (j4, initial_scan_state) of
                                Inl (e, j5) \<Rightarrow> fail_job j5 e
                              | Inr (j5, st) \<Rightarrow>
                                  j5\<lparr>job_status := ''completed'', job_message := ''Completado!''\<rparr>)"

text \<open>
  \<^verbatim>\<open>identify_set\<close> creates the record and starts \<^verbatim>\<open>process_set\<close> with
  \<^verbatim>\<open>request.segment_duration or 30\<close>.
\<close>

definition queued_job :: "string \<Rightarrow> job" where
  "queued_job clean_url =
     \<lparr> job_status = ''queued'', job_message = ''En cola...'', job_url = clean_url,
       job_tracks = [], job_set_info = JNull, job_total_duration = 0,
       job_current_position = 0 \<rparr>"

section \<open>Notions used in the proofs\<close>

text \<open>
  The shape of a track list that every iteration keeps: timestamps strictly increasing,
  no two neighbours both \<^verbatim>\<open>not_found\<close>, and every track either a \<^verbatim>\<open>not_found\<close> one with
  null title and artist and no album key, or an \<^verbatim>\<open>identified\<close> one with an album key.
\<close>

definition well_formed :: "track list \<Rightarrow> bool" where
  "well_formed ts =
     (sorted_wrt (\<lambda>x y. timestamp_seconds x < timestamp_seconds y) ts
      \<and> successively (\<lambda>x y. \<not> (status x = ''not_found'' \<and> status y = ''not_found'')) ts
      \<and> list_all (\<lambda>t. (status t = ''not_found'' \<and> title t = JNull \<and> artist t = JNull \<and> album t = None)
                     \<or> (status t = ''identified'' \<and> album t \<noteq> None)) ts)"

definition scan_inv :: "int \<Rightarrow> int \<Rightarrow> scan_state \<Rightarrow> bool" where
  "scan_inv segment_duration start_time st =
     (well_formed (tracks st)
      \<and> last_track st = (if tracks st = [] then None else Some (last (tracks st)))
      \<and> 0 \<le> start_time
      \<and> 0 \<le> consecutive_not_found st
      \<and> (1 \<le> consecutive_not_found st \<longrightarrow> segment_duration \<le> start_time)
      \<and> (\<forall>t \<in> set (tracks st). timestamp_seconds t < start_time)
      \<and> (1 \<le> consecutive_not_found st \<longrightarrow> tracks st \<noteq> [] \<longrightarrow> status (last (tracks st)) \<noteq> ''not_found'' \<longrightarrow>
           (\<forall>t \<in> set (tracks st). timestamp_seconds t < start_time - segment_duration)))"

text \<open>
  The job record as it stands when the loop begins.
\<close>

definition scanning_job :: "job \<Rightarrow> json \<Rightarrow> int \<Rightarrow> int \<Rightarrow> job" where
  "scanning_job j info d sd =
     j\<lparr>job_set_info := info, job_status := ''processing'', job_total_duration := d,
       job_message := ''Identificando tracks (0/'' @ str_int (d div sd) @ '')...''\<rparr>"

text \<open>
  Inputs for the worked examples: a provider exchange that identifies a sample as a given
  artist and title, and an environment in which the download and the decoding succeed,
  with an audio of the given length in milliseconds.
\<close>

definition found_as :: "string \<Rightarrow> string \<Rightarrow> exchange" where
  "found_as a t =
     Response 200 (Inr (JObj [(''status'', JStr ''success''),
       (''result'', JObj [(''artist'', JStr a), (''title'', JStr t)])]))"

definition example_env :: "nat \<Rightarrow> (nat \<Rightarrow> exchange) \<Rightarrow> environment" where
  "example_env len_audio xs =
     \<lparr> download_audio = Inr (JObj [(''title'', JStr ''set''), (''duration'', JInt 0),
                                   (''uploader'', JStr ''dj'')]),
       audio_file = ''/tmp/job/audio.mp3'',
       audio_exists = True,
       from_mp3 = Inr len_audio,
       exchanges = xs,
       format_value = (\<lambda>v. []) \<rparr>"

section \<open>Properties of identify_segment\<close>

lemma py_get_obj: "py_get (JObj kvs) k d = Inr (case map_of kvs k of None \<Rightarrow> d | Some v \<Rightarrow> v)"
  by (simp add: py_get_def)

lemma py_get_null: "py_get JNull k d = Inl (AttributeError ''NoneType'' ''get'')"
  by (simp add: py_get_def)

lemma bind_exn_simps:
  "bind_exn (Inl e) f = Inl e"
  "bind_exn (Inr x) f = f x"
  by (simp_all add: bind_exn_def)

text \<open>
  A result object whose spotify and apple_music entries are absent or null and whose
  deezer entry is absent is mapped to a found result with three null links: the guard
  \<^verbatim>\<open>if track.get("spotify") else None\<close> covers the null entry as well as the absent one.
\<close>

lemma identify_segment_links_absent_or_null:
  assumes "map_of kvs ''status'' = Some (JStr ''success'')"
    and "map_of kvs ''result'' = Some (JObj tkvs)" and "tkvs \<noteq> []"
    and "map_of tkvs ''spotify'' = None \<or> map_of tkvs ''spotify'' = Some JNull"
    and "map_of tkvs ''apple_music'' = None \<or> map_of tkvs ''apple_music'' = Some JNull"
    and "map_of tkvs ''deezer'' = None"
  shows "identify_segment fmt (Response code (Inr (JObj kvs)))
    = Found (case map_of tkvs ''title'' of None \<Rightarrow> JNull | Some v \<Rightarrow> v)
            (case map_of tkvs ''artist'' of None \<Rightarrow> JNull | Some v \<Rightarrow> v)
            (case map_of tkvs ''album'' of None \<Rightarrow> JNull | Some v \<Rightarrow> v)
            JNull JNull JNull"
  using assms
  by (auto simp add: identify_segment_def identify_body_def spotify_link_def apple_music_link_def
      deezer_link_def py_get_obj bind_exn_simps)

text \<open>
  C5. A successful response with a result object must give a found result whatever link
  objects are absent or null. With a null deezer entry it does not: the deezer expression
  calls \<^verbatim>\<open>.get('id')\<close> on \<^verbatim>\<open>None\<close>, the handler catches the AttributeError, and the
  sample that the provider identified comes back as not found, with the error text.
\<close>

theorem identify_segment_deezer_null:
  "identify_segment fmt
     (Response 200 (Inr (JObj [(''status'', JStr ''success''),
        (''result'', JObj [(''title'', JStr ''T''), (''artist'', JStr ''A''),
                           (''album'', JStr ''B''), (''deezer'', JNull)])])))
   = NotFound (Some (JStr (str_exn (AttributeError ''NoneType'' ''get''))))"
  by (simp add: identify_segment_def identify_body_def spotify_link_def apple_music_link_def
      deezer_link_def py_get_obj py_get_null bind_exn_simps)

text \<open>
  C6, as claimed: every non-200 response gives a result that is not found, with the error
  captured. The status code is never read: a response with status 500 and a success body
  is a found result, and one with a body of another shape is not found with no error.
\<close>

theorem identify_segment_status_code_counterexample:
  "found (identify_segment (\<lambda>v. ''1'')
     (Response 500 (Inr (JObj [(''status'', JStr ''success''),
        (''result'', JObj [(''title'', JStr ''T''), (''artist'', JStr ''A'')])]))))
   \<and> identify_segment (\<lambda>v. ''1'')
       (Response 500 (Inr (JObj [(''message'', JStr ''Internal Server Error'')])))
     = NotFound None"
  by (simp add: identify_segment_def identify_body_def spotify_link_def apple_music_link_def
      deezer_link_def py_get_obj py_get_null bind_exn_simps)

text \<open>
  C6, amended. \<open>identify_segment\<close> always returns. A transport failure and a body that is
  not JSON, under any status code, give a result that is not found and holds the text of
  the exception; a body whose status is \<^verbatim>\<open>error\<close> gives a result that is not found and
  holds the provider's error entry (null when there is none). The status code is not
  read: a response is handled as the same body under status 200 would be. For every
  result that is not found the iteration does not raise and adds one to the counter of
  consecutive misses.
\<close>

theorem identify_failure_is_miss:
  "identify_segment fmt (TransportFailure m) = NotFound (Some (JStr m))
   \<and> identify_segment fmt (Response code (Inl m)) = NotFound (Some (JStr m))
   \<and> (map_of kvs ''status'' = Some (JStr ''error'') \<longrightarrow>
        identify_segment fmt (Response code (Inr (JObj kvs)))
          = NotFound (Some (case map_of kvs ''error'' of None \<Rightarrow> JNull | Some v \<Rightarrow> v)))
   \<and> identify_segment fmt (Response code body) = identify_segment fmt (Response 200 body)
   \<and> (\<not> found (identify_segment (format_value env) (exchanges env i)) \<longrightarrow>
        (\<exists>j' st'. scan_iteration env sd duration (i, start) (j, st) = Inr (j', st')
           \<and> consecutive_not_found st' = consecutive_not_found st + 1))"
proof -
  have a: "identify_segment fmt (TransportFailure m) = NotFound (Some (JStr m))"
    by (simp add: identify_segment_def)
  have b: "identify_segment fmt (Response code (Inl m)) = NotFound (Some (JStr m))"
    by (simp add: identify_segment_def)
  have c: "map_of kvs ''status'' = Some (JStr ''error'') \<longrightarrow>
        identify_segment fmt (Response code (Inr (JObj kvs)))
          = NotFound (Some (case map_of kvs ''error'' of None \<Rightarrow> JNull | Some v \<Rightarrow> v))"
    by (simp add: identify_segment_def identify_body_def py_get_obj bind_exn_simps)
  have d: "identify_segment fmt (Response code body) = identify_segment fmt (Response 200 body)"
    by (simp add: identify_segment_def)
  have e: "\<not> found (identify_segment (format_value env) (exchanges env i)) \<longrightarrow>
        (\<exists>j' st'. scan_iteration env sd duration (i, start) (j, st) = Inr (j', st')
           \<and> consecutive_not_found st' = consecutive_not_found st + 1)"
    by (simp add: scan_iteration_def scan_step_def Let_def)
  from a b c d e show ?thesis by blast
qed

theorem identify_failure_is_miss_witness:
  "identify_segment (\<lambda>v. ''1'') (Response 502 (Inr (JObj [(''status'', JStr ''error'')])))
     = NotFound (Some JNull)
   \<and> (\<exists>j' st'. scan_iteration
          \<lparr>download_audio = Inr JNull, audio_file = ''audio.mp3'', audio_exists = True,
            from_mp3 = Inr 60000, exchanges = (\<lambda>i. TransportFailure ''timed out''),
            format_value = (\<lambda>v. ''1'')\<rparr>
          30 60 (1, 30) (queued_job ''u'', initial_scan_state) = Inr (j', st')
        \<and> consecutive_not_found st' = consecutive_not_found initial_scan_state + 1)"
  using identify_failure_is_miss [of "\<lambda>v. ''1''" "''timed out''" 502 "[(''status'', JStr ''error'')]"
      "Inl ''x''"
      "\<lparr>download_audio = Inr JNull, audio_file = ''audio.mp3'', audio_exists = True,
            from_mp3 = Inr 60000, exchanges = (\<lambda>i. TransportFailure ''timed out''),
            format_value = (\<lambda>v. ''1'')\<rparr>" 1 30 60 30 "queued_job ''u''" initial_scan_state]
  by (simp add: identify_segment_def)

section \<open>Properties of the scan\<close>

subsection \<open>One iteration keeps the invariant\<close>

lemma well_formed_Nil: "well_formed []"
  by (simp add: well_formed_def)

lemma scan_inv_initial: "scan_inv sd 0 initial_scan_state"
  by (simp add: scan_inv_def initial_scan_state_def well_formed_Nil)

lemma well_formed_snoc:
  assumes "well_formed ts" and "\<forall>t \<in> set ts. timestamp_seconds t < timestamp_seconds x"
    and "ts \<noteq> [] \<longrightarrow> \<not> (status (last ts) = ''not_found'' \<and> status x = ''not_found'')"
    and "(status x = ''not_found'' \<and> title x = JNull \<and> artist x = JNull \<and> album x = None)
                     \<or> (status x = ''identified'' \<and> album x \<noteq> None)"
  shows "well_formed (ts @ [x])"
  using assms by (auto simp: well_formed_def sorted_wrt_append successively_append_iff)

lemma scan_step_found:
  assumes "found r" and "scan_step sd s r st = Inr st'"
  shows "st' = st \<or> st' = st\<lparr>tracks := tracks st @ [identified_track s r],
                             last_track := Some (identified_track s r),
                             consecutive_not_found := 0\<rparr>"
  using assms
  by (auto simp: scan_step_def Let_def bind_exn_def split: sum.splits if_splits option.splits)

lemma scan_step_not_found:
  assumes "\<not> found r"
  shows "scan_step sd s r st =
     Inr (if consecutive_not_found st + 1 \<ge> 2
             \<and> (case last_track st of None \<Rightarrow> True | Some lt \<Rightarrow> status lt \<noteq> ''not_found'')
          then st\<lparr>tracks := tracks st @ [not_found_track sd s],
                  last_track := Some (not_found_track sd s),
                  consecutive_not_found := consecutive_not_found st + 1\<rparr>
          else st\<lparr>consecutive_not_found := consecutive_not_found st + 1\<rparr>)"
  using assms by (simp add: scan_step_def Let_def)

lemma scan_step_inv:
  assumes sd: "0 < sd" and inv: "scan_inv sd s st" and step: "scan_step sd s r st = Inr st'"
  shows "scan_inv sd (s + sd) st'"
proof (cases "found r")
  case True
  from scan_step_found [OF True step] show ?thesis
  proof
    assume "st' = st"
    with inv sd show ?thesis by (auto simp: scan_inv_def)
  next
    let ?x = "identified_track s r"
    assume e: "st' = st\<lparr>tracks := tracks st @ [?x], last_track := Some ?x, consecutive_not_found := 0\<rparr>"
    have x: "timestamp_seconds ?x = s" "status ?x = ''identified''" "album ?x \<noteq> None"
      by (simp_all add: identified_track_def)
    have "well_formed (tracks st @ [?x])"
      by (rule well_formed_snoc) (use inv x in \<open>auto simp: scan_inv_def\<close>)
    with inv sd x show ?thesis unfolding e by (auto simp: scan_inv_def)
  qed
next
  case False
  let ?c = "consecutive_not_found st + 1"
  let ?x = "not_found_track sd s"
  show ?thesis
  proof (cases "?c \<ge> 2 \<and> (case last_track st of None \<Rightarrow> True | Some lt \<Rightarrow> status lt \<noteq> ''not_found'')")
    case app: True
    then have e: "st' = st\<lparr>tracks := tracks st @ [?x], last_track := Some ?x, consecutive_not_found := ?c\<rparr>"
      using step scan_step_not_found [OF False, of sd s st] by simp
    from app inv have le: "sd \<le> s" by (simp add: scan_inv_def)
    then have x: "timestamp_seconds ?x = s - sd" "status ?x = ''not_found''" "album ?x = None"
        "title ?x = JNull" "artist ?x = JNull"
      by (simp_all add: not_found_track_def)
    have lt: "\<forall>t \<in> set (tracks st). timestamp_seconds t < s - sd"
    proof (cases "tracks st = []")
      case True
      then show ?thesis by simp
    next
      case ne: False
      with inv have "last_track st = Some (last (tracks st))" by (simp add: scan_inv_def)
      with app have "status (last (tracks st)) \<noteq> ''not_found''" by simp
      with inv app ne show ?thesis by (simp add: scan_inv_def)
    qed
    have nl: "tracks st \<noteq> [] \<longrightarrow> status (last (tracks st)) \<noteq> ''not_found''"
      using inv app by (auto simp: scan_inv_def)
    have "well_formed (tracks st @ [?x])"
      by (rule well_formed_snoc) (use inv x lt nl in \<open>auto simp: scan_inv_def\<close>)
    with inv sd x le show ?thesis unfolding e by (auto simp: scan_inv_def)
  next
    case napp: False
    then have e: "st' = st\<lparr>consecutive_not_found := ?c\<rparr>"
      using step scan_step_not_found [OF False, of sd s st] by (auto split: if_splits)
    from inv sd show ?thesis unfolding e by (auto simp: scan_inv_def)
  qed
qed


lemma enumerate_py_range:
  "0 < sd \<Longrightarrow> enumerate 0 (py_range d sd)
     = map (\<lambda>k. (k, int k * sd)) [0..<nat ((d + sd - 1) div sd)]"
  by (simp add: py_range_def enumerate_map_upt)

lemma py_range_nonpos: "sd \<le> 0 \<Longrightarrow> 0 \<le> d \<Longrightarrow> py_range d sd = []"
proof -
  assume a: "sd \<le> 0" "0 \<le> d"
  have "(d + sd + 1) div sd \<le> 0" if neg: "sd < 0"
  proof -
    have "(d + sd + 1) div sd \<le> (sd + 1) div sd"
      by (rule zdiv_mono1_neg) (use a neg in auto)
    also have "(sd + 1) div sd = 0"
      using neg by (cases "sd = -1") (auto simp: div_neg_neg_trivial)
    finally show ?thesis .
  qed
  then show ?thesis using a by (auto simp: py_range_def)
qed

lemma scan_iteration_Inr:
  "scan_iteration env sd d (i, s) (j, st) = Inr (j', st') \<Longrightarrow>
     scan_step sd s (identify_segment (format_value env) (exchanges env i)) st = Inr st'
     \<and> job_tracks j' = tracks st'"
  by (auto simp: scan_iteration_def Let_def split: sum.splits)

lemma scan_iteration_Inl:
  "scan_iteration env sd d (i, s) (j, st) = Inl (e, j') \<Longrightarrow> job_tracks j' = job_tracks j"
  by (auto simp: scan_iteration_def Let_def split: sum.splits)

lemma scan_loop_inv:
  assumes "0 < sd" and "scan_inv sd (int a * sd) st" and "well_formed (job_tracks j)"
  shows "case scan_loop env sd d (map (\<lambda>k. (k, int k * sd)) [a..<b]) (j, st) of
           Inl (e, j') \<Rightarrow> well_formed (job_tracks j')
         | Inr (j', st') \<Rightarrow> well_formed (job_tracks j')"
  using assms
proof (induction "b - a" arbitrary: a j st)
  case 0
  then show ?case by simp
next
  case (Suc n)
  then have lt: "a < b" by simp
  show ?case
  proof (cases "scan_iteration env sd d (a, int a * sd) (j, st)")
    case (Inl x)
    obtain e j' where x: "x = (e, j')" by (cases x)
    from scan_iteration_Inl [OF Inl [unfolded x]] Suc.prems(3) lt Inl x
    show ?thesis by (simp add: upt_conv_Cons)
  next
    case (Inr y)
    obtain j' st' where y: "y = (j', st')" by (cases y)
    from scan_iteration_Inr [OF Inr [unfolded y]]
    have step: "scan_step sd (int a * sd) (identify_segment (format_value env) (exchanges env a)) st = Inr st'"
      and jt: "job_tracks j' = tracks st'" by simp_all
    from scan_step_inv [OF Suc.prems(1,2) step]
    have inv': "scan_inv sd (int (Suc a) * sd) st'" by (simp add: algebra_simps)
    then have wf: "well_formed (job_tracks j')" using jt by (simp add: scan_inv_def)
    have "n = b - Suc a" using Suc.hyps(2) by simp
    from Suc.hyps(1) [OF this Suc.prems(1) inv' wf] lt Inr y
    show ?thesis by (simp add: upt_conv_Cons)
  qed
qed

lemma process_set_scan:
  assumes "download_audio env = Inr info" and "audio_exists env" and "from_mp3 env = Inr len"
    and "sd \<noteq> 0"
  shows "process_set env j sd =
    (case scan_loop env sd (int len div 1000) (enumerate 0 (py_range (int len div 1000) sd))
            (scanning_job j info (int len div 1000) sd, initial_scan_state) of
       Inl (e, j5) \<Rightarrow> fail_job j5 e
     | Inr (j5, st) \<Rightarrow> j5\<lparr>job_status := ''completed'', job_message := ''Completado!''\<rparr>)"
  using assms by (simp add: process_set_def Let_def scanning_job_def)

lemma process_set_no_scan:
  assumes "(\<exists>e. download_audio env = Inl e) \<or> \<not> audio_exists env \<or> (\<exists>e. from_mp3 env = Inl e) \<or> sd = 0"
  shows "job_tracks (process_set env j sd) = job_tracks j
    \<and> job_status (process_set env j sd) = ''error''"
  using assms by (auto simp: process_set_def Let_def fail_job_def split: sum.splits)

lemma scan_loop_from_initial:
  assumes "well_formed (job_tracks j)" and "0 \<le> d"
  shows "case scan_loop env sd d (enumerate 0 (py_range d sd)) (j, initial_scan_state) of
           Inl (e, j') \<Rightarrow> well_formed (job_tracks j')
         | Inr (j', st') \<Rightarrow> well_formed (job_tracks j')"
proof (cases "0 < sd")
  case True
  show ?thesis
    using scan_loop_inv [OF True _ assms(1), of 0 initial_scan_state] scan_inv_initial
    by (simp add: enumerate_py_range [OF True])
next
  case False
  then have "py_range d sd = []" using assms(2) by (simp add: py_range_nonpos)
  with assms show ?thesis by (simp add: enumerate_eq_zip)
qed

lemma process_set_well_formed:
  assumes "job_tracks j = []"
  shows "well_formed (job_tracks (process_set env j sd))"
proof (cases "(\<exists>e. download_audio env = Inl e) \<or> \<not> audio_exists env \<or> (\<exists>e. from_mp3 env = Inl e) \<or> sd = 0")
  case True
  from process_set_no_scan [OF True, of j] assms show ?thesis by (simp add: well_formed_Nil)
next
  case False
  then obtain info len where ok: "download_audio env = Inr info" "audio_exists env"
      "from_mp3 env = Inr len" "sd \<noteq> 0"
    by (cases "download_audio env"; cases "from_mp3 env") auto
  have wf: "well_formed (job_tracks (scanning_job j info (int len div 1000) sd))"
    using assms by (simp add: scanning_job_def well_formed_Nil)
  have d: "0 \<le> int len div 1000" by simp
  from scan_loop_from_initial [OF wf d, of env sd]
  show ?thesis
    unfolding process_set_scan [OF ok]
    by (auto simp: fail_job_def split: sum.splits prod.splits)
qed

subsection \<open>Evaluating a run\<close>

lemma identify_found_as:
  "identify_segment fmt (found_as a t) = Found (JStr t) (JStr a) JNull JNull JNull JNull"
  by (simp add: found_as_def identify_segment_def identify_body_def spotify_link_def
      apple_music_link_def deezer_link_def py_get_obj bind_exn_simps)

lemma identify_transport_failure:
  "identify_segment fmt (TransportFailure m) = NotFound (Some (JStr m))"
  by (simp add: identify_segment_def)


lemmas run_simps =
  process_set_def example_env_def Let_def py_range_def enumerate_eq_zip upt_rec
  scan_iteration_def identify_found_as identify_transport_failure scan_step_def bind_exn_simps
  initial_scan_state_def queued_job_def identified_track_def not_found_track_def

lemma example_run_found_then_misses:
  "job_status (process_set (example_env 90000 (\<lambda>i. if i = 0 then found_as ''A'' ''T''
       else TransportFailure ''timed out'')) (queued_job ''u'') 30) = ''completed''
   \<and> map (\<lambda>t. (timestamp_seconds t, status t))
       (job_tracks (process_set (example_env 90000 (\<lambda>i. if i = 0 then found_as ''A'' ''T''
          else TransportFailure ''timed out'')) (queued_job ''u'') 30))
     = [(0, ''identified''), (30, ''not_found'')]"
  by (simp add: run_simps)

text \<open>
  C2. In every completed job the timestamps of the tracks increase strictly from each
  track to the next, and no two neighbouring tracks are both \<^verbatim>\<open>not_found\<close>.
\<close>

theorem tracks_strictly_increasing:
  assumes "job_status (process_set env (queued_job url) sd) = ''completed''"
  shows "\<forall>i. Suc i < length (job_tracks (process_set env (queued_job url) sd)) \<longrightarrow>
      timestamp_seconds (job_tracks (process_set env (queued_job url) sd) ! i)
        < timestamp_seconds (job_tracks (process_set env (queued_job url) sd) ! Suc i)
      \<and> \<not> (status (job_tracks (process_set env (queued_job url) sd) ! i) = ''not_found''
          \<and> status (job_tracks (process_set env (queued_job url) sd) ! Suc i) = ''not_found'')"
proof -
  have "well_formed (job_tracks (process_set env (queued_job url) sd))"
    by (rule process_set_well_formed) (simp add: queued_job_def)
  then show ?thesis
    by (auto simp: well_formed_def sorted_wrt_iff_nth_less successively_conv_nth)
qed

theorem tracks_strictly_increasing_witness:
  "job_status (process_set (example_env 90000 (\<lambda>i. if i = 0 then found_as ''A'' ''T''
       else TransportFailure ''timed out'')) (queued_job ''u'') 30) = ''completed''
   \<and> timestamp_seconds (job_tracks (process_set (example_env 90000 (\<lambda>i. if i = 0 then found_as ''A'' ''T''
       else TransportFailure ''timed out'')) (queued_job ''u'') 30) ! 0)
     < timestamp_seconds (job_tracks (process_set (example_env 90000 (\<lambda>i. if i = 0 then found_as ''A'' ''T''
       else TransportFailure ''timed out'')) (queued_job ''u'') 30) ! Suc 0)"
proof -
  let ?job = "process_set (example_env 90000 (\<lambda>i. if i = 0 then found_as ''A'' ''T''
       else TransportFailure ''timed out'')) (queued_job ''u'') 30"
  have c: "job_status ?job = ''completed''" using example_run_found_then_misses by blast
  have "length (map (\<lambda>t. (timestamp_seconds t, status t)) (job_tracks ?job)) = 2"
    using example_run_found_then_misses by simp
  then have l: "Suc 0 < length (job_tracks ?job)" by simp
  from tracks_strictly_increasing [OF c] l c show ?thesis by blast
qed

subsection \<open>A set with no identified sample\<close>

lemma scan_iteration_eq:
  "scan_step sd s (identify_segment (format_value env) (exchanges env i)) st = Inr st' \<Longrightarrow>
   \<exists>j'. scan_iteration env sd d (i, s) (j, st) = Inr (j', st') \<and> job_tracks j' = tracks st'"
  by (simp add: scan_iteration_def Let_def)

lemma scan_loop_stable:
  assumes step: "\<And>k st. a \<le> k \<Longrightarrow> k < b \<Longrightarrow> P st \<Longrightarrow>
      \<exists>st'. scan_step sd (f k) (identify_segment (format_value env) (exchanges env k)) st = Inr st'
        \<and> P st' \<and> tracks st' = tracks st"
    and "P st"
  shows "\<exists>j' st'. scan_loop env sd d (map (\<lambda>k. (k, f k)) [a..<b]) (j, st) = Inr (j', st')
      \<and> P st' \<and> tracks st' = tracks st
      \<and> job_tracks j' = (if a < b then tracks st else job_tracks j)"
  using assms
proof (induction "b - a" arbitrary: a j st)
  case 0
  then show ?case by simp
next
  case (Suc n)
  then have lt: "a < b" by simp
  from Suc.prems(1) [OF le_refl lt Suc.prems(2)] obtain st1 where
    s1: "scan_step sd (f a) (identify_segment (format_value env) (exchanges env a)) st = Inr st1"
    and p1: "P st1" and t1: "tracks st1 = tracks st" by blast
  from scan_iteration_eq [OF s1, of d j] obtain j1 where
    it: "scan_iteration env sd d (a, f a) (j, st) = Inr (j1, st1)" and jt: "job_tracks j1 = tracks st1"
    by blast
  have n: "n = b - Suc a" using Suc.hyps(2) by simp
  have "\<exists>j' st'. scan_loop env sd d (map (\<lambda>k. (k, f k)) [Suc a..<b]) (j1, st1) = Inr (j', st')
      \<and> P st' \<and> tracks st' = tracks st1
      \<and> job_tracks j' = (if Suc a < b then tracks st1 else job_tracks j1)"
    by (rule Suc.hyps(1) [OF n _ p1]) (use Suc.prems(1) in auto)
  then show ?case using lt it jt t1 by (auto simp: upt_conv_Cons)
qed

lemma all_miss_loop:
  assumes sd: "0 < sd"
    and miss: "\<forall>i < n. \<not> found (identify_segment (format_value env) (exchanges env i))"
  shows "\<exists>j' st'. scan_loop env sd d (map (\<lambda>k. (k, int k * sd)) [0..<n]) (j, initial_scan_state) = Inr (j', st')
      \<and> (if n = 0 then job_tracks j' = job_tracks j
          else if n = 1 then job_tracks j' = []
          else job_tracks j' = [not_found_track sd sd])"
proof -
  let ?res = "\<lambda>i. identify_segment (format_value env) (exchanges env i)"
  let ?f = "\<lambda>k. int k * sd"
  consider "n = 0" | "n = 1" | "2 \<le> n" by linarith
  then show ?thesis
  proof cases
    case 1
    then show ?thesis by simp
  next
    case 2
    have m0: "\<not> found (?res 0)" using miss 2 by simp
    show ?thesis using 2 scan_step_not_found [OF m0, of sd 0 initial_scan_state]
      by (simp add: scan_iteration_def Let_def initial_scan_state_def)
  next
    case 3
    have m0: "\<not> found (?res 0)" and m1: "\<not> found (?res 1)" using miss 3 by simp_all
    define s1 where "s1 = initial_scan_state\<lparr>consecutive_not_found := 1\<rparr>"
    define s2 where "s2 = s1\<lparr>tracks := [not_found_track sd sd],
        last_track := Some (not_found_track sd sd), consecutive_not_found := 2\<rparr>"
    have e1: "scan_step sd 0 (?res 0) initial_scan_state = Inr s1"
      using scan_step_not_found [OF m0, of sd 0 initial_scan_state]
      by (simp add: s1_def initial_scan_state_def)
    have e2: "scan_step sd sd (?res 1) s1 = Inr s2"
      using scan_step_not_found [OF m1, of sd sd s1]
      by (simp add: s1_def s2_def initial_scan_state_def)
    from scan_iteration_eq [OF e1, of d j] obtain j1 where
      i1: "scan_iteration env sd d (0, 0) (j, initial_scan_state) = Inr (j1, s1)" by blast
    from scan_iteration_eq [OF e2, of d j1] obtain j2 where
      i2: "scan_iteration env sd d (1, sd) (j1, s1) = Inr (j2, s2)" and jt2: "job_tracks j2 = tracks s2"
      by blast
    let ?P = "\<lambda>st::scan_state. \<exists>lt. last_track st = Some lt \<and> status lt = ''not_found''"
    have "\<exists>j' st'. scan_loop env sd d (map (\<lambda>k. (k, ?f k)) [2..<n]) (j2, s2) = Inr (j', st')
      \<and> ?P st' \<and> tracks st' = tracks s2
      \<and> job_tracks j' = (if 2 < n then tracks s2 else job_tracks j2)"
    proof (rule scan_loop_stable)
      show "?P s2" by (simp add: s2_def not_found_track_def)
    next
      fix k and st :: scan_state
      assume k: "2 \<le> k" "k < n" and p: "?P st"
      have mk: "\<not> found (?res k)" using miss k by simp
      from p show "\<exists>st'. scan_step sd (?f k) (?res k) st = Inr st' \<and> ?P st' \<and> tracks st' = tracks st"
        unfolding scan_step_not_found [OF mk] by auto
    qed
    then obtain j' st' where
      l: "scan_loop env sd d (map (\<lambda>k. (k, ?f k)) [2..<n]) (j2, s2) = Inr (j', st')"
      and jt: "job_tracks j' = (if 2 < n then tracks s2 else job_tracks j2)" by blast
    have up: "[0..<n] = 0 # 1 # [2..<n]" using 3 by (simp add: upt_conv_Cons numeral_2_eq_2)
    have "job_tracks j' = [not_found_track sd sd]" using jt jt2 by (simp add: s2_def)
    then show ?thesis using 3 l i1 i2 unfolding up by simp
  qed
qed

text \<open>
  C4, as claimed: a scan with no identified sample ends completed with an empty track
  list. With two samples, both missed, the job is completed and holds a track.
\<close>

theorem unrecognized_set_counterexample:
  "job_status (process_set (example_env 60000 (\<lambda>i. TransportFailure ''timed out'')) (queued_job ''u'') 30) = ''completed''
   \<and> job_tracks (process_set (example_env 60000 (\<lambda>i. TransportFailure ''timed out'')) (queued_job ''u'') 30) \<noteq> []"
  by (simp add: run_simps)

text \<open>
  C4, amended. When the download and the decoding succeed and no sample is identified,
  the job ends completed, not in error. Its track list is empty when the scan has fewer
  than two samples; otherwise it is the single \<^verbatim>\<open>not_found\<close> track appended at the second
  sample, whose timestamp is 0.
\<close>

theorem unrecognized_set_completes:
  assumes "download_audio env = Inr info" and "audio_exists env" and "from_mp3 env = Inr len"
    and "sd \<noteq> 0"
    and "\<forall>i < length (py_range (int len div 1000) sd).
           \<not> found (identify_segment (format_value env) (exchanges env i))"
  shows "job_status (process_set env (queued_job url) sd) = ''completed''
    \<and> job_tracks (process_set env (queued_job url) sd) =
        (if length (py_range (int len div 1000) sd) < 2 then [] else [not_found_track sd sd])
    \<and> timestamp_seconds (not_found_track sd sd) = 0
    \<and> status (not_found_track sd sd) = ''not_found''"
proof -
  let ?d = "int len div 1000"
  let ?j = "scanning_job (queued_job url) info ?d sd"
  have nf: "timestamp_seconds (not_found_track sd sd) = 0 \<and> status (not_found_track sd sd) = ''not_found''"
    by (simp add: not_found_track_def)
  show ?thesis
  proof (cases "0 < sd")
    case True
    let ?n = "nat ((?d + sd - 1) div sd)"
    have len: "length (py_range ?d sd) = ?n" using True by (simp add: py_range_def)
    from all_miss_loop [OF True, of ?n env ?d ?j] assms(5) len
    obtain j' st' where
      l: "scan_loop env sd ?d (map (\<lambda>k. (k, int k * sd)) [0..<?n]) (?j, initial_scan_state) = Inr (j', st')"
      and t: "if ?n = 0 then job_tracks j' = job_tracks ?j
          else if ?n = 1 then job_tracks j' = []
          else job_tracks j' = [not_found_track sd sd]" by auto
    have jq: "job_tracks ?j = []" by (simp add: scanning_job_def queued_job_def)
    have "job_tracks j' = (if ?n < 2 then [] else [not_found_track sd sd])"
      using t jq by (auto split: if_splits)
    then show ?thesis
      using nf l len unfolding process_set_scan [OF assms(1-4)] enumerate_py_range [OF True]
      by simp
  next
    case False
    then have e: "py_range ?d sd = []" by (simp add: py_range_nonpos)
    show ?thesis
      using nf unfolding process_set_scan [OF assms(1-4)] e
      by (simp add: enumerate_eq_zip scanning_job_def queued_job_def)
  qed
qed

theorem unrecognized_set_completes_witness:
  "job_status (process_set (example_env 60000 (\<lambda>i. TransportFailure ''timed out'')) (queued_job ''u'') 30) = ''completed''
   \<and> job_tracks (process_set (example_env 60000 (\<lambda>i. TransportFailure ''timed out'')) (queued_job ''u'') 30)
      = [not_found_track 30 30]
   \<and> timestamp_seconds (not_found_track 30 30) = 0"
  using unrecognized_set_completes [of "example_env 60000 (\<lambda>i. TransportFailure ''timed out'')"
      "JObj [(''title'', JStr ''set''), (''duration'', JInt 0), (''uploader'', JStr ''dj'')]" 60000 30 "''u''"]
  by (simp add: example_env_def identify_transport_failure py_range_def)

subsection \<open>The fields of a track\<close>







subsection \<open>A set in which every sample is the same track\<close>

lemma normalize_track_name_str:
  "a \<noteq> [] \<Longrightarrow> t \<noteq> [] \<Longrightarrow>
   normalize_track_name (JStr a) (JStr t) = Inr (normalize_artist a @ '' - '' @ normalize_title t)"
  by (simp add: normalize_track_name_def)

lemma normalize_track_name_empty:
  "a = [] \<or> t = [] \<Longrightarrow> normalize_track_name (JStr a) (JStr t) = Inr []"
  by (auto simp: normalize_track_name_def)

lemma tracks_are_similar_same:
  "a \<noteq> [] \<Longrightarrow> t \<noteq> [] \<Longrightarrow> tracks_are_similar (JStr a) (JStr t) (JStr a) (JStr t) = Inr True"
  by (simp add: tracks_are_similar_def normalize_track_name_str bind_exn_simps)

lemma all_same_loop:
  assumes ne: "a \<noteq> []" "t \<noteq> []" and n: "0 < n"
    and same: "\<forall>i < n. found (identify_segment (format_value env) (exchanges env i))
        \<and> res_artist (identify_segment (format_value env) (exchanges env i)) = JStr a
        \<and> res_title (identify_segment (format_value env) (exchanges env i)) = JStr t"
  shows "\<exists>j' st'. scan_loop env sd d (map (\<lambda>k. (k, int k * sd)) [0..<n]) (j, initial_scan_state) = Inr (j', st')
      \<and> job_tracks j' = [identified_track 0 (identify_segment (format_value env) (exchanges env 0))]"
proof -
  let ?res = "\<lambda>i. identify_segment (format_value env) (exchanges env i)"
  let ?f = "\<lambda>k. int k * sd"
  let ?x = "identified_track 0 (?res 0)"
  define s1 where "s1 = initial_scan_state\<lparr>tracks := [?x], last_track := Some ?x, consecutive_not_found := 0\<rparr>"
  have f0: "found (?res 0)" using same n by simp
  have e1: "scan_step sd 0 (?res 0) initial_scan_state = Inr s1"
    using f0 by (simp add: scan_step_def Let_def s1_def initial_scan_state_def bind_exn_simps)
  from scan_iteration_eq [OF e1, of d j] obtain j1 where
    i1: "scan_iteration env sd d (0, 0) (j, initial_scan_state) = Inr (j1, s1)"
    and jt1: "job_tracks j1 = tracks s1" by blast
  let ?P = "\<lambda>st::scan_state. \<exists>lt. last_track st = Some lt \<and> status lt = ''identified''
      \<and> artist lt = JStr a \<and> title lt = JStr t"
  have "\<exists>j' st'. scan_loop env sd d (map (\<lambda>k. (k, ?f k)) [1..<n]) (j1, s1) = Inr (j', st')
      \<and> ?P st' \<and> tracks st' = tracks s1
      \<and> job_tracks j' = (if 1 < n then tracks s1 else job_tracks j1)"
  proof (rule scan_loop_stable)
    show "?P s1" using same n by (simp add: s1_def identified_track_def)
  next
    fix k and st :: scan_state
    assume k: "1 \<le> k" "k < n" and p: "?P st"
    from same k have r: "found (?res k)" "res_artist (?res k) = JStr a" "res_title (?res k) = JStr t"
      by simp_all
    from p r have "scan_step sd (?f k) (?res k) st = Inr st"
      by (auto simp: scan_step_def Let_def tracks_are_similar_same [OF ne] bind_exn_simps)
    with p show "\<exists>st'. scan_step sd (?f k) (?res k) st = Inr st' \<and> ?P st' \<and> tracks st' = tracks st"
      by blast
  qed
  then obtain j' st' where
    l: "scan_loop env sd d (map (\<lambda>k. (k, ?f k)) [1..<n]) (j1, s1) = Inr (j', st')"
    and jt: "job_tracks j' = (if 1 < n then tracks s1 else job_tracks j1)" by blast
  have up: "[0..<n] = 0 # [1..<n]" using n by (simp add: upt_conv_Cons)
  have "job_tracks j' = [?x]" using jt jt1 by (simp add: s1_def)
  then show ?thesis using l i1 unfolding up by simp
qed

text \<open>
  C3, as claimed: any artist and title, returned by every sample, give one identified
  track. With an empty artist the comparison answers false (the normalized key is empty)
  and each sample appends a track.
\<close>

theorem identical_samples_counterexample:
  "map status (job_tracks (process_set (example_env 60000 (\<lambda>i. found_as [] ''Song''))
       (queued_job ''u'') 30)) = [''identified'', ''identified'']"
  by (simp add: run_simps tracks_are_similar_def normalize_track_name_empty)

text \<open>
  C3, amended. For a non-empty artist and a non-empty title: when the download and the
  decoding succeed, the scan has at least one sample and every sample is found with that
  artist and title, the job completes and its track list is the one identified track of
  the first sample.
\<close>

theorem identical_samples_one_track:
  assumes "download_audio env = Inr info" and "audio_exists env" and "from_mp3 env = Inr len"
    and "sd \<noteq> 0"
    and "1 \<le> length (py_range (int len div 1000) sd)"
    and "a \<noteq> []" and "t \<noteq> []"
    and "\<forall>i < length (py_range (int len div 1000) sd).
           found (identify_segment (format_value env) (exchanges env i))
         \<and> res_artist (identify_segment (format_value env) (exchanges env i)) = JStr a
         \<and> res_title (identify_segment (format_value env) (exchanges env i)) = JStr t"
  shows "job_status (process_set env (queued_job url) sd) = ''completed''
    \<and> job_tracks (process_set env (queued_job url) sd)
        = [identified_track 0 (identify_segment (format_value env) (exchanges env 0))]
    \<and> length (filter (\<lambda>x. status x = ''identified'')
         (job_tracks (process_set env (queued_job url) sd))) = 1"
proof -
  let ?d = "int len div 1000"
  let ?j = "scanning_job (queued_job url) info ?d sd"
  have pos: "0 < sd"
  proof (rule ccontr)
    assume "\<not> 0 < sd"
    then have "py_range ?d sd = []" by (simp add: py_range_nonpos)
    with assms(5) show False by simp
  qed
  let ?n = "nat ((?d + sd - 1) div sd)"
  have len: "length (py_range ?d sd) = ?n" using pos by (simp add: py_range_def)
  have n: "0 < ?n" using assms(5) len by simp
  from all_same_loop [OF assms(6,7) n, of env sd ?d ?j] assms(8) len
  obtain j' st' where
    l: "scan_loop env sd ?d (map (\<lambda>k. (k, int k * sd)) [0..<?n]) (?j, initial_scan_state) = Inr (j', st')"
    and t: "job_tracks j' = [identified_track 0 (identify_segment (format_value env) (exchanges env 0))]"
    by auto
  show ?thesis
    using l t unfolding process_set_scan [OF assms(1-4)] enumerate_py_range [OF pos]
    by (simp add: identified_track_def)
qed

theorem identical_samples_one_track_witness:
  "job_status (process_set (example_env 90000 (\<lambda>i. found_as ''A'' ''T'')) (queued_job ''u'') 30) = ''completed''
   \<and> length (filter (\<lambda>x. status x = ''identified'')
         (job_tracks (process_set (example_env 90000 (\<lambda>i. found_as ''A'' ''T'')) (queued_job ''u'') 30))) = 1"
  using identical_samples_one_track [of "example_env 90000 (\<lambda>i. found_as ''A'' ''T'')"
      "JObj [(''title'', JStr ''set''), (''duration'', JInt 0), (''uploader'', JStr ''dj'')]" 90000 30
      "''A''" "''T''" "''u''"]
  by (simp add: example_env_def identify_found_as py_range_def identified_track_def)

subsection \<open>The gap marker\<close>

lemma scan_step_first_found:
  "found r \<Longrightarrow> last_track st = None \<Longrightarrow>
   scan_step sd s r st = Inr (st\<lparr>tracks := tracks st @ [identified_track s r],
       last_track := Some (identified_track s r), consecutive_not_found := 0\<rparr>)"
  by (simp add: scan_step_def Let_def bind_exn_simps)

lemma two_samples_second_found:
  assumes s1: "scan_step sd t0 r0 initial_scan_state = Inr s1"
    and s2: "scan_step sd t1 r1 s1 = Inr s2" and f1: "found r1"
  shows "consecutive_not_found s2 = 0
    \<and> (\<exists>lt. last_track s2 = Some lt \<and> status lt = ''identified'')
    \<and> (\<forall>t \<in> set (tracks s2). status t = ''identified'')"
proof (cases "found r0")
  case True
  from s1 scan_step_first_found [OF True, of initial_scan_state sd t0]
  have e1: "s1 = \<lparr>tracks = [identified_track t0 r0], last_track = Some (identified_track t0 r0),
      consecutive_not_found = 0\<rparr>"
    by (simp add: initial_scan_state_def)
  from scan_step_found [OF f1 s2] show ?thesis
    by (auto simp: e1 identified_track_def)
next
  case False
  from s1 scan_step_not_found [OF False, of sd t0 initial_scan_state]
  have e1: "s1 = \<lparr>tracks = [], last_track = None, consecutive_not_found = 1\<rparr>"
    by (simp add: initial_scan_state_def)
  from s2 scan_step_first_found [OF f1, of s1 sd t1]
  show ?thesis by (auto simp: e1 identified_track_def)
qed

lemma scan_loop_snoc:
  "scan_loop env sd d ps js = Inr js' \<Longrightarrow>
   scan_loop env sd d (ps @ [p]) js = scan_iteration env sd d p js'"
  by (induction ps arbitrary: js) (auto split: sum.splits)

text \<open>
  For an audio of more than 120 and at most 150 seconds and a stride of 30, the loop runs
  over five samples, starting at 0, 30, 60, 90 and 120.
\<close>

lemma five_samples: "120 < d \<Longrightarrow> d \<le> 150 \<Longrightarrow>
  enumerate 0 (py_range d 30) = [(0, 0), (1, 30), (2, 60), (3, 90), (4, 120)]"
proof -
  assume a: "120 < d" "d \<le> 150"
  then have "(d + 30 - 1) div 30 = 5" by presburger
  then show ?thesis by (simp add: py_range_def enumerate_eq_zip upt_rec)
qed

text \<open>
  C1. Stride 30; the first two iterations have run, the sample at 30 is found (so a track
  is identified and the miss at 60 opens a run of misses), and the samples at 60, 90 and
  120 are not found. Then the iteration at 60 appends nothing, the iteration at 90
  appends one \<^verbatim>\<open>not_found\<close> track, the iteration at 120 appends nothing, the timestamp of
  that track is 60, and it is the only \<^verbatim>\<open>not_found\<close> track of the list. The lists are the
  first three, four and five samples of the scan.
\<close>

theorem gap_backdating:
  assumes two: "scan_loop env 30 d [(0, 0), (1, 30)] (j, initial_scan_state) = Inr (j2, s2)"
    and f1: "found (identify_segment (format_value env) (exchanges env 1))"
    and m2: "\<not> found (identify_segment (format_value env) (exchanges env 2))"
    and m3: "\<not> found (identify_segment (format_value env) (exchanges env 3))"
    and m4: "\<not> found (identify_segment (format_value env) (exchanges env 4))"
  shows "\<exists>j3 s3 j4 s4 j5 s5.
      scan_loop env 30 d [(0, 0), (1, 30), (2, 60)] (j, initial_scan_state) = Inr (j3, s3)
    \<and> tracks s3 = tracks s2
    \<and> scan_loop env 30 d [(0, 0), (1, 30), (2, 60), (3, 90)] (j, initial_scan_state) = Inr (j4, s4)
    \<and> tracks s4 = tracks s2 @ [not_found_track 30 90]
    \<and> scan_loop env 30 d [(0, 0), (1, 30), (2, 60), (3, 90), (4, 120)] (j, initial_scan_state)
        = Inr (j5, s5)
    \<and> tracks s5 = tracks s2 @ [not_found_track 30 90]
    \<and> job_tracks j5 = tracks s2 @ [not_found_track 30 90]
    \<and> timestamp_seconds (not_found_track 30 90) = 60
    \<and> status (not_found_track 30 90) = ''not_found''
    \<and> (\<forall>t \<in> set (tracks s2). status t = ''identified'')"
proof -
  let ?res = "\<lambda>i. identify_segment (format_value env) (exchanges env i)"
  let ?nf = "not_found_track 30 90"
  from two obtain j1 s1 where
    i0: "scan_iteration env 30 d (0, 0) (j, initial_scan_state) = Inr (j1, s1)"
    and i1: "scan_iteration env 30 d (1, 30) (j1, s1) = Inr (j2, s2)"
    by (auto split: sum.splits)
  from scan_iteration_Inr [OF i0] scan_iteration_Inr [OF i1]
  have st: "scan_step 30 0 (?res 0) initial_scan_state = Inr s1" "scan_step 30 30 (?res 1) s1 = Inr s2"
    by simp_all
  from two_samples_second_found [OF st f1] obtain lt where
    c: "consecutive_not_found s2 = 0" and l: "last_track s2 = Some lt" "status lt = ''identified''"
    and a: "\<forall>t \<in> set (tracks s2). status t = ''identified''" by blast
  define s3 where "s3 = s2\<lparr>consecutive_not_found := 1\<rparr>"
  define s4 where "s4 = s3\<lparr>tracks := tracks s2 @ [?nf], last_track := Some ?nf,
      consecutive_not_found := 2\<rparr>"
  define s5 where "s5 = s4\<lparr>consecutive_not_found := 3\<rparr>"
  have e3: "scan_step 30 60 (?res 2) s2 = Inr s3"
    unfolding scan_step_not_found [OF m2] using c by (simp add: s3_def)
  have e4: "scan_step 30 90 (?res 3) s3 = Inr s4"
    unfolding scan_step_not_found [OF m3] using l by (simp add: s3_def s4_def c)
  have e5: "scan_step 30 120 (?res 4) s4 = Inr s5"
    unfolding scan_step_not_found [OF m4]
    by (simp add: s3_def s4_def s5_def not_found_track_def)
  from scan_iteration_eq [OF e3, of d j2] obtain j3 where
    i3: "scan_iteration env 30 d (2, 60) (j2, s2) = Inr (j3, s3)" by blast
  from scan_iteration_eq [OF e4, of d j3] obtain j4 where
    i4: "scan_iteration env 30 d (3, 90) (j3, s3) = Inr (j4, s4)" by blast
  from scan_iteration_eq [OF e5, of d j4] obtain j5 where
    i5: "scan_iteration env 30 d (4, 120) (j4, s4) = Inr (j5, s5)"
    and jt5: "job_tracks j5 = tracks s5" by blast
  have l3: "scan_loop env 30 d [(0, 0), (1, 30), (2, 60)] (j, initial_scan_state) = Inr (j3, s3)"
    using scan_loop_snoc [OF two, of "(2, 60)"] i3 by simp
  have l4: "scan_loop env 30 d [(0, 0), (1, 30), (2, 60), (3, 90)] (j, initial_scan_state) = Inr (j4, s4)"
    using scan_loop_snoc [OF l3, of "(3, 90)"] i4 by simp
  have l5: "scan_loop env 30 d [(0, 0), (1, 30), (2, 60), (3, 90), (4, 120)] (j, initial_scan_state)
      = Inr (j5, s5)"
    using scan_loop_snoc [OF l4, of "(4, 120)"] i5 by simp
  have t: "tracks s3 = tracks s2" "tracks s4 = tracks s2 @ [?nf]" "tracks s5 = tracks s2 @ [?nf]"
    by (simp_all add: s3_def s4_def s5_def)
  have nf: "timestamp_seconds ?nf = 60" "status ?nf = ''not_found''"
    by (simp_all add: not_found_track_def)
  from l3 l4 l5 t jt5 nf a show ?thesis by auto
qed

theorem gap_backdating_witness:
  "\<exists>j5 s5. scan_loop (example_env 150000 (\<lambda>i. if i < 2 then found_as ''A'' ''T''
         else TransportFailure ''timed out'')) 30 150
       [(0, 0), (1, 30), (2, 60), (3, 90), (4, 120)] (queued_job ''u'', initial_scan_state)
     = Inr (j5, s5)
   \<and> tracks s5 = [identified_track 0 (Found (JStr ''T'') (JStr ''A'') JNull JNull JNull JNull),
                   not_found_track 30 90]
   \<and> timestamp_seconds (not_found_track 30 90) = 60"
proof -
  let ?env = "example_env 150000 (\<lambda>i. if i < 2 then found_as ''A'' ''T''
         else TransportFailure ''timed out'')"
  let ?x = "identified_track 0 (Found (JStr ''T'') (JStr ''A'') JNull JNull JNull JNull)"
  have sim: "tracks_are_similar (JStr ''A'') (JStr ''T'') (JStr ''A'') (JStr ''T'') = Inr True"
    by (rule tracks_are_similar_same) simp_all
  have "\<exists>j2. scan_loop ?env 30 150 [(0, 0), (1, 30)] (queued_job ''u'', initial_scan_state)
     = Inr (j2, \<lparr>tracks = [?x], last_track = Some ?x, consecutive_not_found = 0\<rparr>)"
    by (simp add: example_env_def scan_iteration_def identify_found_as scan_step_def Let_def
        bind_exn_simps initial_scan_state_def identified_track_def sim)
  then obtain j2 where two: "scan_loop ?env 30 150 [(0, 0), (1, 30)] (queued_job ''u'', initial_scan_state)
     = Inr (j2, \<lparr>tracks = [?x], last_track = Some ?x, consecutive_not_found = 0\<rparr>)" by blast
  have f1: "found (identify_segment (format_value ?env) (exchanges ?env 1))"
    by (simp add: example_env_def identify_found_as)
  have m: "\<not> found (identify_segment (format_value ?env) (exchanges ?env 2))"
      "\<not> found (identify_segment (format_value ?env) (exchanges ?env 3))"
      "\<not> found (identify_segment (format_value ?env) (exchanges ?env 4))"
    by (simp_all add: example_env_def identify_transport_failure)
  from gap_backdating [OF two f1 m] show ?thesis by auto
qed

text \<open>
  C10. A sample that is found and similar to the last identified track changes nothing,
  the counter of misses included, whatever the counter is. So after an identified track
  with the counter at 0, a miss, then such a sample, then a miss bring the counter to 2
  and append a \<^verbatim>\<open>not_found\<close> track, though the two misses are not neighbours.
\<close>

theorem similar_sample_keeps_miss_counter:
  assumes l: "last_track st = Some lt" "status lt = ''identified''"
    and c0: "consecutive_not_found st = 0"
    and f: "found r"
    and sim: "tracks_are_similar (artist lt) (title lt) (res_artist r) (res_title r) = Inr True"
    and m: "\<not> found m1" "\<not> found m2"
  shows "(\<forall>c. scan_step sd t2 r (st\<lparr>consecutive_not_found := c\<rparr>) = Inr (st\<lparr>consecutive_not_found := c\<rparr>))
    \<and> scan_step sd t1 m1 st = Inr (st\<lparr>consecutive_not_found := 1\<rparr>)
    \<and> scan_step sd t2 r (st\<lparr>consecutive_not_found := 1\<rparr>) = Inr (st\<lparr>consecutive_not_found := 1\<rparr>)
    \<and> scan_step sd t3 m2 (st\<lparr>consecutive_not_found := 1\<rparr>)
        = Inr (st\<lparr>tracks := tracks st @ [not_found_track sd t3],
                  last_track := Some (not_found_track sd t3),
                  consecutive_not_found := 2\<rparr>)"
proof -
  have keep: "scan_step sd t2 r (st\<lparr>consecutive_not_found := c\<rparr>) = Inr (st\<lparr>consecutive_not_found := c\<rparr>)" for c
    using l f sim by (simp add: scan_step_def Let_def bind_exn_simps)
  have e1: "scan_step sd t1 m1 st = Inr (st\<lparr>consecutive_not_found := 1\<rparr>)"
    unfolding scan_step_not_found [OF m(1)] using c0 by simp
  have e3: "scan_step sd t3 m2 (st\<lparr>consecutive_not_found := 1\<rparr>)
        = Inr (st\<lparr>tracks := tracks st @ [not_found_track sd t3],
                  last_track := Some (not_found_track sd t3),
                  consecutive_not_found := 2\<rparr>)"
    unfolding scan_step_not_found [OF m(2)] using l by simp
  from keep e1 e3 show ?thesis by blast
qed

theorem similar_sample_keeps_miss_counter_witness:
  "scan_step 30 60 (Found (JStr ''T'') (JStr ''A'') JNull JNull JNull JNull)
      \<lparr>tracks = [identified_track 0 (Found (JStr ''T'') (JStr ''A'') JNull JNull JNull JNull)],
        last_track = Some (identified_track 0 (Found (JStr ''T'') (JStr ''A'') JNull JNull JNull JNull)),
        consecutive_not_found = 1\<rparr>
    = Inr \<lparr>tracks = [identified_track 0 (Found (JStr ''T'') (JStr ''A'') JNull JNull JNull JNull)],
        last_track = Some (identified_track 0 (Found (JStr ''T'') (JStr ''A'') JNull JNull JNull JNull)),
        consecutive_not_found = 1\<rparr>
   \<and> scan_step 30 90 (NotFound None)
      \<lparr>tracks = [identified_track 0 (Found (JStr ''T'') (JStr ''A'') JNull JNull JNull JNull)],
        last_track = Some (identified_track 0 (Found (JStr ''T'') (JStr ''A'') JNull JNull JNull JNull)),
        consecutive_not_found = 1\<rparr>
    = Inr \<lparr>tracks = [identified_track 0 (Found (JStr ''T'') (JStr ''A'') JNull JNull JNull JNull),
                      not_found_track 30 90],
        last_track = Some (not_found_track 30 90),
        consecutive_not_found = 2\<rparr>"
proof -
  let ?r = "Found (JStr ''T'') (JStr ''A'') JNull JNull JNull JNull"
  let ?x = "identified_track 0 ?r"
  let ?st = "\<lparr>tracks = [?x], last_track = Some ?x, consecutive_not_found = 0\<rparr>"
  have sim: "tracks_are_similar (artist ?x) (title ?x) (res_artist ?r) (res_title ?r) = Inr True"
    unfolding identified_track_def by (simp add: tracks_are_similar_same)
  have "last_track ?st = Some ?x" "status ?x = ''identified''" "consecutive_not_found ?st = 0"
    "found ?r" "\<not> found (NotFound None)"
    by (simp_all add: identified_track_def)
  from similar_sample_keeps_miss_counter [OF this(1,2,3,4) sim this(5,5),
      where sd = 30 and ?t1.0 = 30 and ?t2.0 = 60 and ?t3.0 = 90]
  show ?thesis by simp
qed

section \<open>Properties of tracks_are_similar\<close>

lemma key_aaba: "normalize_track_name (JStr ''a'') (JStr ''aaba'') = Inr ''a - aaba''"
  by code_simp

lemma key_baaa: "normalize_track_name (JStr ''a'') (JStr ''baaa'') = Inr ''a - baaa''"
  by code_simp

lemma ratio_aaba_baaa: "ratio ''a - aaba'' ''a - baaa'' = 7 / 8"
proof -
  have m: "matching_size ''a - aaba'' ''a - baaa'' 0 (length ''a - aaba'') 0 (length ''a - baaa'') = 7"
    by code_simp
  have l: "length ''a - aaba'' + length ''a - baaa'' = 16" by simp
  show ?thesis unfolding ratio_def Let_def m l by simp
qed

lemma ratio_baaa_aaba: "ratio ''a - baaa'' ''a - aaba'' = 3 / 4"
proof -
  have m: "matching_size ''a - baaa'' ''a - aaba'' 0 (length ''a - baaa'') 0 (length ''a - aaba'') = 6"
    by code_simp
  have l: "length ''a - baaa'' + length ''a - aaba'' = 16" by simp
  show ?thesis unfolding ratio_def Let_def m l by simp
qed

lemma ratio_titles_baaa_aaba: "ratio (title_part ''a - baaa'') (title_part ''a - aaba'') = 1 / 2"
proof -
  have t: "title_part ''a - baaa'' = ''baaa''" "title_part ''a - aaba'' = ''aaba''"
    by code_simp+
  have m: "matching_size ''baaa'' ''aaba'' 0 (length ''baaa'') 0 (length ''aaba'') = 2"
    by code_simp
  have l: "length ''baaa'' + length ''aaba'' = 8" by simp
  show ?thesis unfolding t ratio_def Let_def m l by simp
qed

text \<open>
  C8, as claimed: swapping the two pairs gives the same answer. The matcher takes the
  longest block that starts earliest in its first argument, so the number of matched
  characters depends on the order: the keys \<open>a - aaba\<close> and \<open>a - baaa\<close> match in 7 of
  their characters one way round (ratio 7/8) and in 6 the other (ratio 3/4, with the
  titles at 1/2).
\<close>

theorem similarity_symmetry_counterexample:
  "tracks_are_similar (JStr ''a'') (JStr ''aaba'') (JStr ''a'') (JStr ''baaa'') = Inr True
   \<and> tracks_are_similar (JStr ''a'') (JStr ''baaa'') (JStr ''a'') (JStr ''aaba'') = Inr False"
  by (simp add: tracks_are_similar_def key_aaba key_baaa bind_exn_simps ratio_aaba_baaa
      ratio_baaa_aaba ratio_titles_baaa_aaba)

text \<open>
  The best block lies inside the window of the second sequence as it does inside that of
  the first, so the matcher never matches more elements than the shorter sequence has.
\<close>

lemma match_row_bound_b:
  assumes "\<forall>(j, k) \<in> set j2len. k + blo \<le> j + 1"
    and "\<forall>(j, k) \<in> set newj2len. k + blo \<le> j + 1"
    and "blo \<le> fst (snd best)" and "fst (snd best) + snd (snd best) \<le> max blo bhi"
    and "match_row j2len i blo bhi js newj2len best = (new', best')"
  shows "(\<forall>(j, k) \<in> set new'. k + blo \<le> j + 1) \<and> blo \<le> fst (snd best')
     \<and> fst (snd best') + snd (snd best') \<le> max blo bhi"
  using assms
proof (induction j2len i blo bhi js newj2len best rule: match_row.induct)
  case (1 j2len i blo bhi newj2len best)
  from "1.prems"(5) have "new' = newj2len" "best' = best" by simp_all
  with "1.prems"(2,3,4) show ?case by simp
next
  case (2 j2len i blo bhi j js newj2len besti bestj bestsize)
  show ?case
  proof (cases "j < blo")
    case True
    with "2.prems"(5) have "match_row j2len i blo bhi js newj2len (besti, bestj, bestsize) = (new', best')"
      by simp
    from "2.IH"(1) [OF True "2.prems"(1,2,3,4) this] show ?thesis .
  next
    case nlo: False
    have g: "j2len_get j2len j + blo \<le> j"
    proof (cases "j = 0")
      case True
      with nlo show ?thesis by (simp add: j2len_get_def)
    next
      case pos: False
      show ?thesis
      proof (cases "map_of j2len (j - 1)")
        case None
        with pos nlo show ?thesis by (simp add: j2len_get_def)
      next
        case (Some k)
        then have "(j - 1, k) \<in> set j2len" by (rule map_of_SomeD)
        with "2.prems"(1) have "k + blo \<le> (j - 1) + 1" by blast
        with pos Some show ?thesis by (simp add: j2len_get_def)
      qed
    qed
    show ?thesis
    proof (cases "bhi \<le> j")
      case True
      with nlo "2.prems"(5) have "new' = newj2len" "best' = (besti, bestj, bestsize)" by simp_all
      with "2.prems"(2,3,4) show ?thesis by simp
    next
      case False
      define k where "k = j2len_get j2len j + 1"
      define nb where "nb = (if bestsize < k then (i + 1 - k, j + 1 - k, k) else (besti, bestj, bestsize))"
      have kb: "k + blo \<le> j + 1" using g by (simp add: k_def)
      have a1: "\<forall>(j', k') \<in> set ((j, k) # newj2len). k' + blo \<le> j' + 1"
        using kb "2.prems"(2) by simp
      have a2: "blo \<le> fst (snd nb)"
        using kb "2.prems"(3) by (auto simp: nb_def)
      have a3: "fst (snd nb) + snd (snd nb) \<le> max blo bhi"
        using kb False "2.prems"(4) by (auto simp: nb_def)
      have a4: "match_row j2len i blo bhi js ((j, k) # newj2len) nb = (new', best')"
        using "2.prems"(5) nlo False by (simp add: Let_def k_def nb_def split: if_splits)
      show ?thesis
        by (rule "2.IH"(2) [OF nlo False k_def [unfolded atomize_eq] "2.prems"(1) a1
            a2 [unfolded nb_def] a3 [unfolded nb_def] a4 [unfolded nb_def]])
    qed
  qed
qed

lemma match_rows_bound_b:
  assumes "\<forall>(j, k) \<in> set j2len. k + blo \<le> j + 1"
    and "blo \<le> fst (snd best)" and "fst (snd best) + snd (snd best) \<le> max blo bhi"
  shows "blo \<le> fst (snd (match_rows a b blo bhi is j2len best))
       \<and> fst (snd (match_rows a b blo bhi is j2len best))
           + snd (snd (match_rows a b blo bhi is j2len best)) \<le> max blo bhi"
  using assms
proof (induction "is" arbitrary: j2len best)
  case Nil
  then show ?case by simp
next
  case (Cons i "is")
  obtain new' best' where r: "match_row j2len i blo bhi (b2j b (a ! i)) [] best = (new', best')"
    by (cases "match_row j2len i blo bhi (b2j b (a ! i)) [] best") auto
  have inv: "(\<forall>(j, k) \<in> set new'. k + blo \<le> j + 1) \<and> blo \<le> fst (snd best')
     \<and> fst (snd best') + snd (snd best') \<le> max blo bhi"
    by (rule match_row_bound_b [OF Cons.prems(1) _ Cons.prems(2,3) r]) simp
  from Cons.IH [of new' best'] inv r show ?case by simp
qed

lemma extend_left_bound_b:
  "blo \<le> fst (snd m) \<Longrightarrow> blo \<le> fst (snd (extend_left a b alo blo m))
     \<and> fst (snd (extend_left a b alo blo m)) + snd (snd (extend_left a b alo blo m))
         = fst (snd m) + snd (snd m)"
proof (induction a b alo blo m rule: extend_left.induct)
  case (1 a b alo blo besti bestj bestsize)
  show ?case
  proof (cases "alo < besti \<and> blo < bestj \<and> a ! (besti - 1) = b ! (bestj - 1)")
    case True
    then have e: "extend_left a b alo blo (besti, bestj, bestsize)
        = extend_left a b alo blo (besti - 1, bestj - 1, bestsize + 1)"
      by (subst extend_left.simps) simp
    from True have "blo \<le> fst (snd (besti - 1, bestj - 1, bestsize + 1))" by auto
    from "1.IH" [OF True this] True show ?thesis unfolding e by simp
  next
    case False
    then have "extend_left a b alo blo (besti, bestj, bestsize) = (besti, bestj, bestsize)"
      by (subst extend_left.simps) auto
    with "1.prems" show ?thesis by simp
  qed
qed

lemma extend_right_bound_b:
  "fst (snd (extend_right a b ahi bhi m)) = fst (snd m)
     \<and> fst (snd (extend_right a b ahi bhi m)) + snd (snd (extend_right a b ahi bhi m))
         \<le> max (fst (snd m) + snd (snd m)) bhi"
proof (induction a b ahi bhi m rule: extend_right.induct)
  case (1 a b ahi bhi besti bestj bestsize)
  show ?case
  proof (cases "besti + bestsize < ahi \<and> bestj + bestsize < bhi
         \<and> a ! (besti + bestsize) = b ! (bestj + bestsize)")
    case True
    then have e: "extend_right a b ahi bhi (besti, bestj, bestsize)
        = extend_right a b ahi bhi (besti, bestj, bestsize + 1)"
      by (subst extend_right.simps) simp
    from "1.IH" [OF True] True show ?thesis unfolding e by simp
  next
    case False
    then have "extend_right a b ahi bhi (besti, bestj, bestsize) = (besti, bestj, bestsize)"
      by (subst extend_right.simps) auto
    then show ?thesis by simp
  qed
qed

lemma find_longest_match_bound_b:
  assumes "find_longest_match a b alo ahi blo bhi = (i, j, k)"
  shows "blo \<le> j \<and> j + k \<le> max blo bhi"
proof -
  let ?m = "match_rows a b blo bhi [alo..<ahi] [] (alo, blo, 0)"
  have m: "blo \<le> fst (snd ?m) \<and> fst (snd ?m) + snd (snd ?m) \<le> max blo bhi"
    by (rule match_rows_bound_b) auto
  let ?l = "extend_left a b alo blo ?m"
  have l: "blo \<le> fst (snd ?l) \<and> fst (snd ?l) + snd (snd ?l) = fst (snd ?m) + snd (snd ?m)"
    using extend_left_bound_b m by blast
  have r: "fst (snd (extend_right a b ahi bhi ?l)) = fst (snd ?l)
      \<and> fst (snd (extend_right a b ahi bhi ?l)) + snd (snd (extend_right a b ahi bhi ?l))
          \<le> max (fst (snd ?l) + snd (snd ?l)) bhi"
    by (rule extend_right_bound_b)
  from assms have "extend_right a b ahi bhi ?l = (i, j, k)" by (simp add: find_longest_match_def)
  with m l r show ?thesis by auto
qed


lemma matching_size_le:
  "matching_size a b alo ahi blo bhi \<le> min (ahi - alo) (bhi - blo)"
proof (induction a b alo ahi blo bhi rule: matching_size.induct)
  case (1 a b alo ahi blo bhi)
  obtain i j k where f: "find_longest_match a b alo ahi blo bhi = (i, j, k)"
    by (cases "find_longest_match a b alo ahi blo bhi") auto
  note bi = find_longest_match_bound [OF f] and bj = find_longest_match_bound_b [OF f]
  show ?case
  proof (cases "k = 0")
    case True
    with f show ?thesis by (subst matching_size.simps) simp
  next
    case False
    define l where "l = (if alo < i \<and> blo < j then matching_size a b alo i blo j else 0)"
    define r where "r = (if i + k < ahi \<and> j + k < bhi then matching_size a b (i + k) ahi (j + k) bhi else 0)"
    have e: "matching_size a b alo ahi blo bhi = k + l + r"
      using f False by (subst matching_size.simps) (simp add: l_def r_def)
    have ll: "l \<le> min (i - alo) (j - blo)"
      using "1.IH"(1) [OF f [symmetric] refl False] by (simp add: l_def)
    have rr: "r \<le> min (ahi - (i + k)) (bhi - (j + k))"
      using "1.IH"(2) [OF f [symmetric] refl False] by (simp add: r_def)
    from bi bj False ll rr show ?thesis unfolding e by auto
  qed
qed


lemma ratio_empty: "ratio [] [] = 1"
  by (simp add: ratio_def)

lemma ratio_le_4_5:
  assumes ne: "a \<noteq> [] \<or> b \<noteq> []"
    and far: "3 * min (length a) (length b) \<le> 2 * max (length a) (length b)"
  shows "ratio a b \<le> 4 / 5"
proof -
  define m where "m = matching_size a b 0 (length a) 0 (length b)"
  define n where "n = length a + length b"
  have "m \<le> min (length a) (length b)"
    using matching_size_le [of a b 0 "length a" 0 "length b"] by (simp add: m_def)
  with far have "10 * m \<le> 4 * n" unfolding n_def by (cases "length a \<le> length b") simp_all
  then have "(of_nat (10 * m) :: rat) \<le> of_nat (4 * n)" by (simp only: of_nat_le_iff)
  then have r: "10 * (of_nat m :: rat) \<le> 4 * of_nat n" by (simp only: of_nat_mult of_nat_numeral)
  have "0 < n" using ne by (auto simp: n_def)
  then have np: "(0::rat) < of_nat n" by simp
  have "2 * (of_nat m :: rat) / of_nat n \<le> 4 / 5"
    unfolding pos_divide_le_eq [OF np] using r by linarith
  moreover have "ratio a b = 2 * of_nat m / of_nat n"
    using ne by (simp add: ratio_def Let_def m_def n_def)
  ultimately show ?thesis by simp
qed

lemma ratio_le_17_20:
  assumes ne: "a \<noteq> [] \<or> b \<noteq> []"
    and far: "23 * min (length a) (length b) \<le> 17 * max (length a) (length b)"
  shows "ratio a b \<le> 17 / 20"
proof -
  define m where "m = matching_size a b 0 (length a) 0 (length b)"
  define n where "n = length a + length b"
  have "m \<le> min (length a) (length b)"
    using matching_size_le [of a b 0 "length a" 0 "length b"] by (simp add: m_def)
  with far have "40 * m \<le> 17 * n" unfolding n_def by (cases "length a \<le> length b") simp_all
  then have "(of_nat (40 * m) :: rat) \<le> of_nat (17 * n)" by (simp only: of_nat_le_iff)
  then have r: "40 * (of_nat m :: rat) \<le> 17 * of_nat n" by (simp only: of_nat_mult of_nat_numeral)
  have "0 < n" using ne by (auto simp: n_def)
  then have np: "(0::rat) < of_nat n" by simp
  have "2 * (of_nat m :: rat) / of_nat n \<le> 17 / 20"
    unfolding pos_divide_le_eq [OF np] using r by linarith
  moreover have "ratio a b = 2 * of_nat m / of_nat n"
    using ne by (simp add: ratio_def Let_def m_def n_def)
  ultimately show ?thesis by simp
qed

text \<open>
  C8, amended. For two pairs of strings, swapping them gives the same answer whenever one
  normalized key is empty, the two keys are equal, or the lengths rule a match out in
  either order: the shorter key has at most two thirds of the length of the longer, and
  the shorter title part at most 17/23 of the length of the longer.
\<close>

theorem similarity_symmetric_by_length:
  assumes k1: "normalize_track_name (JStr a1) (JStr t1) = Inr k1"
    and k2: "normalize_track_name (JStr a2) (JStr t2) = Inr k2"
    and c: "k1 = [] \<or> k2 = [] \<or> k1 = k2
         \<or> (3 * min (length k1) (length k2) \<le> 2 * max (length k1) (length k2)
             \<and> 23 * min (length (title_part k1)) (length (title_part k2))
                 \<le> 17 * max (length (title_part k1)) (length (title_part k2)))"
  shows "tracks_are_similar (JStr a1) (JStr t1) (JStr a2) (JStr t2)
       = tracks_are_similar (JStr a2) (JStr t2) (JStr a1) (JStr t1)"
proof (cases "k1 = [] \<or> k2 = [] \<or> k1 = k2")
  case True
  then show ?thesis using k1 k2 by (auto simp: tracks_are_similar_def bind_exn_simps)
next
  case False
  with c have far: "3 * min (length k1) (length k2) \<le> 2 * max (length k1) (length k2)"
    and tfar: "23 * min (length (title_part k1)) (length (title_part k2))
                 \<le> 17 * max (length (title_part k1)) (length (title_part k2))" by auto
  from False have ne: "k1 \<noteq> []" "k2 \<noteq> []" "k1 \<noteq> k2" by auto
  have r12: "\<not> ratio k1 k2 > 4 / 5" using ratio_le_4_5 [of k1 k2] ne far by simp
  have r21: "\<not> ratio k2 k1 > 4 / 5"
    using ratio_le_4_5 [of k2 k1] ne far by (simp add: min.commute max.commute)
  have t: "(ratio (title_part k1) (title_part k2) > 17 / 20)
      = (ratio (title_part k2) (title_part k1) > 17 / 20)"
  proof (cases "title_part k1 = [] \<and> title_part k2 = []")
    case True
    then show ?thesis by simp
  next
    case False
    then have "\<not> ratio (title_part k1) (title_part k2) > 17 / 20"
      using ratio_le_17_20 [of "title_part k1" "title_part k2"] tfar by auto
    moreover have "\<not> ratio (title_part k2) (title_part k1) > 17 / 20"
      using ratio_le_17_20 [of "title_part k2" "title_part k1"] tfar False
      by (auto simp: min.commute max.commute)
    ultimately show ?thesis by simp
  qed
  have "tracks_are_similar (JStr a1) (JStr t1) (JStr a2) (JStr t2)
      = Inr (ratio (title_part k1) (title_part k2) > 17 / 20)"
    using k1 k2 ne r12 by (simp add: tracks_are_similar_def bind_exn_simps)
  moreover have "tracks_are_similar (JStr a2) (JStr t2) (JStr a1) (JStr t1)
      = Inr (ratio (title_part k2) (title_part k1) > 17 / 20)"
    using k1 k2 ne r21 by (simp add: tracks_are_similar_def bind_exn_simps)
  ultimately show ?thesis using t by simp
qed

lemma key_a_b: "normalize_track_name (JStr ''a'') (JStr ''b'') = Inr ''a - b''"
  by code_simp

lemma key_a_bcde: "normalize_track_name (JStr ''a'') (JStr ''bcde'') = Inr ''a - bcde''"
  by code_simp

lemma title_parts_b_bcde: "title_part ''a - b'' = ''b''" "title_part ''a - bcde'' = ''bcde''"
  by code_simp+

lemma ratio_a_b_a_bcde: "ratio ''a - b'' ''a - bcde'' = 10 / 13"
proof -
  have m: "matching_size ''a - b'' ''a - bcde'' 0 (length ''a - b'') 0 (length ''a - bcde'') = 5"
    by code_simp
  have l: "length ''a - b'' + length ''a - bcde'' = 13" by simp
  show ?thesis unfolding ratio_def Let_def m l by simp
qed

lemma ratio_b_bcde: "ratio ''b'' ''bcde'' = 2 / 5"
proof -
  have m: "matching_size ''b'' ''bcde'' 0 (length ''b'') 0 (length ''bcde'') = 1"
    by code_simp
  have l: "length ''b'' + length ''bcde'' = 5" by simp
  show ?thesis unfolding ratio_def Let_def m l by simp
qed

theorem similarity_symmetric_by_length_witness:
  "tracks_are_similar (JStr ''a'') (JStr ''b'') (JStr ''a'') (JStr ''bcde'')
     = tracks_are_similar (JStr ''a'') (JStr ''bcde'') (JStr ''a'') (JStr ''b'')
   \<and> tracks_are_similar (JStr ''a'') (JStr ''b'') (JStr ''a'') (JStr ''bcde'') = Inr False"
proof -
  have h: "''a - b'' = [] \<or> ''a - bcde'' = [] \<or> ''a - b'' = ''a - bcde''
         \<or> (3 * min (length ''a - b'') (length ''a - bcde'') \<le> 2 * max (length ''a - b'') (length ''a - bcde'')
             \<and> 23 * min (length (title_part ''a - b'')) (length (title_part ''a - bcde''))
                 \<le> 17 * max (length (title_part ''a - b'')) (length (title_part ''a - bcde'')))"
    by (simp add: title_parts_b_bcde)
  have v: "tracks_are_similar (JStr ''a'') (JStr ''b'') (JStr ''a'') (JStr ''bcde'') = Inr False"
    by (simp add: tracks_are_similar_def key_a_b key_a_bcde bind_exn_simps ratio_a_b_a_bcde
        title_parts_b_bcde ratio_b_bcde)
  from similarity_symmetric_by_length [OF key_a_b key_a_bcde h] v show ?thesis by simp
qed

section \<open>Properties of normalize_track_name\<close>

lemma space_is_space: "is_space CHR '' ''"
  by (simp add: is_space_def)

lemma word_not_space: "is_word c \<Longrightarrow> \<not> is_space c"
  by (auto simp: is_word_def is_space_def Let_def)

lemma lower_char_idem: "lower_char (lower_char c) = lower_char c"
  by (auto simp: lower_char_def Let_def of_char_of)

lemma lower_char_space: "lower_char CHR '' '' = CHR '' ''"
  by (simp add: lower_char_def)

lemma split_ws_words:
  "\<forall>c \<in> set cur. \<not> is_space c \<Longrightarrow>
   \<forall>w \<in> set (split_ws cur s). w \<noteq> [] \<and> (\<forall>c \<in> set w. \<not> is_space c) \<and> set w \<subseteq> set cur \<union> set s"
proof (induction s arbitrary: cur)
  case Nil
  then show ?case by auto
next
  case (Cons c cs)
  show ?case
  proof (cases "is_space c")
    case True
    from Cons.IH [of "[]"] Cons.prems True show ?thesis by auto
  next
    case False
    from Cons.IH [of "cur @ [c]"] Cons.prems False show ?thesis by auto
  qed
qed

lemma split_ws_append_word:
  "\<forall>c \<in> set w. \<not> is_space c \<Longrightarrow> split_ws cur (w @ s) = split_ws (cur @ w) s"
  by (induction w arbitrary: cur) auto

lemma py_join_nonempty: "x \<noteq> [] \<Longrightarrow> py_join sep (x # xs) \<noteq> []"
  by (cases xs) auto

lemma split_ws_join:
  "\<forall>w \<in> set ws. w \<noteq> [] \<and> (\<forall>c \<in> set w. \<not> is_space c) \<Longrightarrow>
   split_ws [] (py_join '' '' ws) = ws"
proof (induction "'' ''" ws rule: py_join.induct)
  case 1
  then show ?case by simp
next
  case (2 x)
  then show ?case using split_ws_append_word [of x "[]" "[]"] by simp
next
  case (3 x y ys)
  have "split_ws [] (x @ '' '' @ py_join '' '' (y # ys)) = split_ws x ('' '' @ py_join '' '' (y # ys))"
    using split_ws_append_word [of x "[]"] 3(2) by simp
  also have "\<dots> = x # split_ws [] (py_join '' '' (y # ys))"
    using 3(2) by (simp add: space_is_space)
  also have "\<dots> = x # y # ys" using 3 by simp
  finally show ?case by simp
qed

lemma py_join_ends:
  "\<forall>w \<in> set ws. w \<noteq> [] \<and> (\<forall>c \<in> set w. \<not> is_space c) \<Longrightarrow>
   py_join '' '' ws = []
   \<or> (\<not> is_space (hd (py_join '' '' ws)) \<and> \<not> is_space (last (py_join '' '' ws)))"
proof (induction "'' ''" ws rule: py_join.induct)
  case 1
  then show ?case by simp
next
  case (2 x)
  then show ?case by (cases x rule: rev_cases) (auto simp: hd_append)
next
  case (3 x y ys)
  have ne: "py_join '' '' (y # ys) \<noteq> []" using 3(2) by (intro py_join_nonempty) simp
  with 3 show ?case by (auto simp: hd_append)
qed

lemma py_join_set: "set (py_join sep ws) \<subseteq> set sep \<union> (\<Union>w \<in> set ws. set w)"
  by (induction sep ws rule: py_join.induct) auto

lemma py_strip_id:
  "s = [] \<or> (\<not> is_space (hd s) \<and> \<not> is_space (last s)) \<Longrightarrow> py_strip s = s"
proof (cases s)
  case Nil
  then show ?thesis by (simp add: py_strip_def)
next
  case (Cons c cs)
  assume "s = [] \<or> (\<not> is_space (hd s) \<and> \<not> is_space (last s))"
  with Cons have h: "\<not> is_space c" and l: "\<not> is_space (last s)" by auto
  have "dropWhile is_space s = s" using h Cons by simp
  moreover have "dropWhile is_space (rev s) = rev s"
  proof (cases "rev s")
    case Nil
    then show ?thesis by simp
  next
    case r: (Cons a as)
    have "hd (rev s) = last s" using Cons by (simp add: hd_rev)
    with r l have "\<not> is_space a" by simp
    with r show ?thesis by simp
  qed
  ultimately show ?thesis by (simp add: py_strip_def)
qed


lemma collapse_ws_chars:
  "\<forall>c \<in> set (collapse_ws (strip_special s)). (is_word c \<or> c = CHR '' '') \<and> (c \<in> set s \<or> c = CHR '' '')"
proof
  fix c
  assume "c \<in> set (collapse_ws (strip_special s))"
  then have "c \<in> set '' '' \<union> (\<Union>w \<in> set (py_split (strip_special s)). set w)"
    using py_join_set [of "'' ''" "py_split (strip_special s)"] by (auto simp: collapse_ws_def)
  then consider "c = CHR '' ''" | w where "w \<in> set (py_split (strip_special s))" "c \<in> set w"
    by auto
  then show "(is_word c \<or> c = CHR '' '') \<and> (c \<in> set s \<or> c = CHR '' '')"
  proof cases
    case 1
    then show ?thesis by simp
  next
    case 2
    from split_ws_words [of "[]" "strip_special s"] 2
    have "\<not> is_space c" "c \<in> set (strip_special s)" by (auto simp: py_split_def)
    then show ?thesis by (auto simp: strip_special_def)
  qed
qed

lemma collapse_ws_fixed:
  assumes "s = collapse_ws x"
  shows "collapse_ws s = s \<and> py_strip s = s"
proof -
  let ?ws = "py_split x"
  have good: "\<forall>w \<in> set ?ws. w \<noteq> [] \<and> (\<forall>c \<in> set w. \<not> is_space c)"
    using split_ws_words [of "[]" x] by (auto simp: py_split_def)
  have s: "s = py_join '' '' ?ws" using assms by (simp add: collapse_ws_def)
  have "py_split s = ?ws" unfolding s py_split_def using split_ws_join [OF good] by (simp add: py_split_def)
  then have a: "collapse_ws s = s" by (simp add: collapse_ws_def s)
  have b: "py_strip s = s" unfolding s by (rule py_strip_id) (rule py_join_ends [OF good])
  from a b show ?thesis by simp
qed

lemma strip_delimited_id: "opn \<notin> set s \<Longrightarrow> strip_delimited opn cls s = s"
  by (induction s) auto

lemma strip_special_id: "\<forall>c \<in> set s. is_word c \<or> is_space c \<Longrightarrow> strip_special s = s"
  by (simp add: strip_special_def)

lemma set_remove_word: "set (remove_word w prev s) \<subseteq> set s"
proof (induction w prev s rule: remove_word.induct)
  case (1 w prev)
  then show ?case by simp
next
  case (2 w prev c cs)
  show ?case
  proof (cases "\<not> prev \<and> take (length w) (c # cs) = w
         \<and> (case drop (length w) (c # cs) of [] \<Rightarrow> True | d # ds \<Rightarrow> \<not> is_word d)")
    case True
    with "2.IH"(1) have "set (remove_word w True (drop (length w - 1) cs)) \<subseteq> set (drop (length w - 1) cs)"
      by simp
    also have "\<dots> \<subseteq> set cs" by (rule set_drop_subset)
    finally show ?thesis using True by auto
  next
    case False
    with "2.IH"(2) show ?thesis by auto
  qed
qed

lemma set_remove_noise: "set (remove_noise s) \<subseteq> set s"
proof -
  have "set (foldl (\<lambda>t w. remove_word w False t) s ws) \<subseteq> set s" for ws
  proof (induction ws arbitrary: s)
    case Nil
    then show ?case by simp
  next
    case (Cons w ws)
    from Cons [of "remove_word w False s"] set_remove_word [of w False s]
    show ?case by auto
  qed
  then show ?thesis by (simp add: remove_noise_def)
qed

lemma set_strip_delimited: "set (strip_delimited opn cls s) \<subseteq> set s"
proof (induction opn cls s rule: strip_delimited.induct)
  case (1 opn cls)
  then show ?case by simp
next
  case (2 opn cls c cs)
  show ?case
  proof (cases "c = opn \<and> cls \<in> set cs")
    case True
    have "set (tl (dropWhile (\<lambda>x. x \<noteq> cls) cs)) \<subseteq> set cs"
    proof
      fix y
      assume "y \<in> set (tl (dropWhile (\<lambda>x. x \<noteq> cls) cs))"
      then have "y \<in> set (dropWhile (\<lambda>x. x \<noteq> cls) cs)"
        by (cases "dropWhile (\<lambda>x. x \<noteq> cls) cs") auto
      then show "y \<in> set cs" by (rule set_dropWhileD)
    qed
    with "2.IH"(1) True show ?thesis by auto
  next
    case False
    with "2.IH"(2) show ?thesis by auto
  qed
qed

lemma set_py_strip: "set (py_strip s) \<subseteq> set s"
  by (auto simp: py_strip_def dest!: set_dropWhileD)


lemma dash_not_word: "\<not> is_word CHR ''-''" "\<not> is_word CHR ''(''" "\<not> is_word CHR ''[''"
  "\<not> is_space CHR ''-''"
  by (simp_all add: is_word_def is_space_def)

lemma append_Cons_unique:
  "xs @ c # ys = xs' @ c # ys' \<Longrightarrow> c \<notin> set xs' \<Longrightarrow> c \<notin> set ys' \<Longrightarrow> xs = xs' \<and> ys = ys'"
proof (induction xs arbitrary: xs')
  case Nil
  then show ?case by (cases xs') auto
next
  case (Cons x xs)
  then show ?case by (cases xs') auto
qed

lemma split_key_unique:
  assumes "A @ '' - '' @ T = a @ '' - '' @ t"
    and "CHR ''-'' \<notin> set a" and "CHR ''-'' \<notin> set t"
  shows "A = a \<and> T = t"
proof -
  have "(A @ '' '') @ CHR ''-'' # ('' '' @ T) = (a @ '' '') @ CHR ''-'' # ('' '' @ t)"
    using assms(1) by simp
  from append_Cons_unique [OF this] assms(2,3) show ?thesis by simp
qed

lemma normalized_part:
  assumes s: "s = collapse_ws (strip_special x)"
    and low: "\<forall>c \<in> set x. lower_char c = c"
    and noise: "remove_noise s = s"
  shows "CHR ''-'' \<notin> set s"
    and "collapse_ws (strip_special (remove_noise (py_strip (py_lower s)))) = s"
    and "strip_delimited (CHR ''['') (CHR '']'') (strip_delimited (CHR ''('') (CHR '')'') (py_strip (py_lower s))) = py_strip (py_lower s)"
proof -
  have chars: "\<forall>c \<in> set s. (is_word c \<or> c = CHR '' '') \<and> (c \<in> set x \<or> c = CHR '' '')"
    unfolding s by (rule collapse_ws_chars)
  show "CHR ''-'' \<notin> set s" using chars dash_not_word by auto
  have "\<forall>c \<in> set s. lower_char c = c" using chars low lower_char_space by auto
  then have l: "py_lower s = s" by (simp add: py_lower_def map_idI)
  have fx: "collapse_ws s = s \<and> py_strip s = s" by (rule collapse_ws_fixed [OF s])
  have sp: "strip_special s = s"
    by (rule strip_special_id) (use chars space_is_space in auto)
  show "collapse_ws (strip_special (remove_noise (py_strip (py_lower s)))) = s"
    by (simp add: l fx noise sp)
  have "CHR ''('' \<notin> set s" "CHR ''['' \<notin> set s" using chars dash_not_word by auto
  then show "strip_delimited (CHR ''['') (CHR '']'') (strip_delimited (CHR ''('') (CHR '')'') (py_strip (py_lower s))) = py_strip (py_lower s)"
    by (simp add: l fx strip_delimited_id)
qed

lemma py_lower_fixed: "\<forall>c \<in> set (py_lower s). lower_char c = c"
  by (auto simp: py_lower_def lower_char_idem)

lemma key_plain: "normalize_track_name (JStr ''Daft  Punk'') (JStr ''One More Time (Radio Edit)'')
    = Inr (''daft punk'' @ '' - '' @ ''one more time'')"
  by code_simp

lemma no_noise_plain: "remove_noise ''daft punk'' = ''daft punk''" "remove_noise ''one more time'' = ''one more time''"
  by code_simp+

text \<open>
  C9, as claimed: normalizing the two parts of a key gives the key back. Noise words are
  removed before punctuation is, so a key can hold a noise word that punctuation was
  hiding, and a second pass removes it.
\<close>

theorem normalization_idempotence_counterexample:
  "normalize_track_name (JStr ''a'') (JStr ''r.e.m.i.x'') = Inr (''a'' @ '' - '' @ ''remix'')
   \<and> normalize_track_name (JStr ''a'') (JStr ''remix'') = Inr ''a - ''"
  by code_simp

text \<open>
  C9, amended. When the key of an artist and a title is \<open>A - T\<close> with \<open>A\<close> and \<open>T\<close>
  non-empty, and neither \<open>A\<close> nor \<open>T\<close> holds a noise word as a whole word (removing the
  noise words leaves each unchanged), then normalizing \<open>A\<close> and \<open>T\<close> gives that key.
\<close>

theorem normalization_idempotent_without_noise:
  assumes key: "normalize_track_name (JStr ar) (JStr ti) = Inr (A @ '' - '' @ T)"
    and ne: "A \<noteq> []" "T \<noteq> []"
    and noise: "remove_noise A = A" "remove_noise T = T"
  shows "normalize_track_name (JStr A) (JStr T) = Inr (A @ '' - '' @ T)"
proof -
  have "ar \<noteq> [] \<and> ti \<noteq> []"
    using key by (auto simp: normalize_track_name_def split: if_splits)
  with key have k: "A @ '' - '' @ T = normalize_artist ar @ '' - '' @ normalize_title ti"
    by (simp add: normalize_track_name_def)
  let ?xa = "remove_noise (py_strip (py_lower ar))"
  let ?xt = "remove_noise (strip_delimited (CHR ''['') (CHR '']'')
         (strip_delimited (CHR ''('') (CHR '')'') (py_strip (py_lower ti))))"
  have na: "normalize_artist ar = collapse_ws (strip_special ?xa)"
    by (simp add: normalize_artist_def)
  have nt: "normalize_title ti = collapse_ws (strip_special ?xt)"
    by (simp add: normalize_title_def)
  have la: "\<forall>c \<in> set ?xa. lower_char c = c"
    using set_remove_noise set_py_strip py_lower_fixed by blast
  have lt: "\<forall>c \<in> set ?xt. lower_char c = c"
    using set_remove_noise set_strip_delimited set_py_strip py_lower_fixed by blast
  have da: "CHR ''-'' \<notin> set (normalize_artist ar)"
    using collapse_ws_chars [of ?xa] dash_not_word unfolding na by auto
  have dt: "CHR ''-'' \<notin> set (normalize_title ti)"
    using collapse_ws_chars [of ?xt] dash_not_word unfolding nt by auto
  from split_key_unique [OF k da dt] have eq: "A = normalize_artist ar" "T = normalize_title ti"
    by simp_all
  have A: "normalize_artist A = A"
    unfolding normalize_artist_def
    by (rule normalized_part(2) [OF _ la noise(1)]) (simp add: eq na)
  have T: "normalize_title T = T"
    unfolding normalize_title_def
    using normalized_part(2,3) [OF _ lt noise(2)] eq nt by simp
  show ?thesis using ne A T by (simp add: normalize_track_name_def)
qed

theorem normalization_idempotent_without_noise_witness:
  "normalize_track_name (JStr ''daft punk'') (JStr ''one more time'') = Inr ''daft punk - one more time''"
  using normalization_idempotent_without_noise [OF key_plain _ _ no_noise_plain] by simp

end
